theory Spec2Isabelle
  imports Main "HOL-Library.Sublist"
begin

section \<open>URLs as the crawler sees them\<close>

text \<open>
  Both crawlers obtain URLs from the platform class \<^verbatim>\<open>URL\<close>. A parsed URL is modelled by
  the components that the crawlers read or write. \<open>query\<close> and \<open>fragment\<close> are optional: the
  serialiser prints \<^verbatim>\<open>?\<close> and \<^verbatim>\<open>#\<close> for a component that is present, even when it is empty, and
  assigning the empty string to \<^verbatim>\<open>u.search\<close> or \<^verbatim>\<open>u.hash\<close> removes the component.
  The record covers URLs with an authority and without credentials.
\<close>

record url =
  scheme :: string
  hostname :: string
  port :: string
  pathname :: string
  query :: "string option"
  fragment :: "string option"

text \<open>The getter \<^verbatim>\<open>u.hash\<close>: empty when the fragment is absent or empty.\<close>

definition hash :: "url \<Rightarrow> string" where
  "hash u = (case fragment u of None \<Rightarrow> [] | Some f \<Rightarrow> if f = [] then [] else CHR ''#'' # f)"

text \<open>The setters \<^verbatim>\<open>u.hash = ''\<close> and \<^verbatim>\<open>u.search = ''\<close>.\<close>

definition clearHash :: "url \<Rightarrow> url" where
  "clearHash u = u\<lparr>fragment := None\<rparr>"

definition clearSearch :: "url \<Rightarrow> url" where
  "clearSearch u = u\<lparr>query := None\<rparr>"

text \<open>The part of \<^verbatim>\<open>u.href\<close> in front of the path, and \<^verbatim>\<open>u.href\<close> itself.\<close>

definition origin :: "url \<Rightarrow> string" where
  "origin u = scheme u @ ''://'' @ hostname u @ (if port u = [] then [] else CHR '':'' # port u)"

definition href :: "url \<Rightarrow> string" where
  "href u = origin u @ pathname u
     @ (case query u of None \<Rightarrow> [] | Some q \<Rightarrow> CHR ''?'' # q)
     @ (case fragment u of None \<Rightarrow> [] | Some f \<Rightarrow> CHR ''#'' # f)"

subsection \<open>String helpers of the host language\<close>

fun startsWith :: "string \<Rightarrow> string \<Rightarrow> bool" where
  "startsWith s [] = True"
| "startsWith [] (c # cs) = False"
| "startsWith (x # xs) (c # cs) = (x = c \<and> startsWith xs cs)"

fun includesStr :: "string \<Rightarrow> string \<Rightarrow> bool" where
  "includesStr [] sub = (sub = [])"
| "includesStr (x # xs) sub = (startsWith (x # xs) sub \<or> includesStr xs sub)"

text \<open>\<^verbatim>\<open>s.replace(/\/$/, '')\<close>: one trailing slash is removed, if there is one.\<close>

definition stripTrailingSlash :: "string \<Rightarrow> string" where
  "stripTrailingSlash s = (if s \<noteq> [] \<and> last s = CHR ''/'' then butlast s else s)"

text \<open>\<^verbatim>\<open>s.split(c)\<close> for a one-character separator, and the split at the first separator only.\<close>

fun splitOn :: "char \<Rightarrow> string \<Rightarrow> string list" where
  "splitOn c [] = [[]]"
| "splitOn c (x # xs) =
     (if x = c then [] # splitOn c xs
      else (case splitOn c xs of [] \<Rightarrow> [[x]] | w # ws \<Rightarrow> (x # w) # ws))"

definition cutAt :: "char \<Rightarrow> string \<Rightarrow> string \<times> string option" where
  "cutAt c s = (let a = takeWhile (\<lambda>x. x \<noteq> c) s; b = dropWhile (\<lambda>x. x \<noteq> c) s
                in (a, if b = [] then None else Some (tl b)))"

section \<open>URL normalisation\<close>

text \<open>
  The Playwright crawler's \<^verbatim>\<open>normalizeUrl(url, preserveHash = false)\<close>. The parser is the
  parameter \<open>P\<close>; \<open>None\<close> stands for the exception of \<^verbatim>\<open>new URL\<close>, which the function turns
  into \<^verbatim>\<open>null\<close>.
\<close>

definition normalizeUrl :: "(string \<Rightarrow> url option) \<Rightarrow> string \<Rightarrow> bool \<Rightarrow> string option" where
  "normalizeUrl P raw preserveHash =
     (case P raw of
        None \<Rightarrow> None
      | Some u \<Rightarrow>
          let u1 = (if \<not> preserveHash \<or> hash u = [] \<or> \<not> startsWith (hash u) ''#/''
                    then clearHash u else u);
              u2 = clearSearch u1
          in Some (stripTrailingSlash (href u2)))"

text \<open>
  The specification's \<^verbatim>\<open>normalize\<close>. Every call site of the Playwright crawler passes
  \<^verbatim>\<open>raw.includes('#/')\<close> as the flag, for a queue item and for a discovered link alike.
\<close>

definition normalize_url :: "(string \<Rightarrow> url option) \<Rightarrow> string \<Rightarrow> string option" where
  "normalize_url P raw = normalizeUrl P raw (includesStr raw ''#/'')"

text \<open>
  The Puppeteer crawler's \<^verbatim>\<open>normalizeUrl(url)\<close>: the query is removed and nothing else; when
  parsing fails the string is cut by hand and returned.
\<close>

definition normalizeUrl_puppeteer :: "(string \<Rightarrow> url option) \<Rightarrow> string \<Rightarrow> string" where
  "normalizeUrl_puppeteer P raw =
     (case P raw of
        Some u \<Rightarrow> href (clearSearch u)
      | None \<Rightarrow>
          if includesStr raw ''#'' then
            (let parts = splitOn CHR ''#'' raw;
                 base = hd (splitOn CHR ''?'' (hd parts));
                 h = (if parts ! 1 \<noteq> [] then CHR ''#'' # parts ! 1 else [])
             in base @ h)
          else hd (splitOn CHR ''?'' raw))"

text \<open>\<^verbatim>\<open>sameDomain(a, b)\<close> of the Playwright crawler: the two host names are compared as they are.\<close>

definition sameDomain :: "(string \<Rightarrow> url option) \<Rightarrow> string \<Rightarrow> string \<Rightarrow> bool" where
  "sameDomain P a b =
     (case P a of
        None \<Rightarrow> False
      | Some ua \<Rightarrow> (case P b of None \<Rightarrow> False | Some ub \<Rightarrow> hostname ua = hostname ub))"

text \<open>
  The Puppeteer crawler has no such function; its link loop tests the host name of a link against
  the host name of the seed in place.
\<close>

definition sameDomain_puppeteer :: "string \<Rightarrow> string \<Rightarrow> bool" where
  "sameDomain_puppeteer linkDomain baseDomain =
     (linkDomain = baseDomain \<or> linkDomain = ''www.'' @ baseDomain
      \<or> ''www.'' @ linkDomain = baseDomain)"

text \<open>
  The status code that the \<^verbatim>\<open>catch\<close> block of the Puppeteer crawler stores for a page that
  failed, computed from the message of the error.
\<close>

definition errorStatus_puppeteer :: "string \<Rightarrow> int" where
  "errorStatus_puppeteer errorMessage =
     (let isTimeout = (includesStr errorMessage ''timeout'' \<or> includesStr errorMessage ''Timeout'');
          isBlocked = (includesStr errorMessage ''blocked'' \<or> includesStr errorMessage ''Blocked''
                       \<or> includesStr errorMessage ''Access Denied''
                       \<or> includesStr errorMessage ''Cloudflare'')
      in if isBlocked then 403 else if isTimeout then 408 else 0)"

section \<open>A concrete parser for plain absolute URLs\<close>

text \<open>
  The platform parser is not part of the repository. The general results below hold for every
  parser \<open>P\<close>. For concrete runs, \<open>parseURL\<close> reads URLs written as
  \<^verbatim>\<open>scheme://host[:port][/path][?query][#fragment]\<close> the way the platform does: the scheme
  and the host are lower-cased, an empty path becomes \<^verbatim>\<open>/\<close>, the default port of http and https
  is dropped, and a string without scheme or with an empty or ill-formed host is rejected.
  Percent-encoding, dot segments, credentials, URLs without an authority, the range of port
  numbers and the other repairs of the platform parser are outside this model; the strings used
  below need none of them.
\<close>

definition toLowerCase :: "string \<Rightarrow> string" where
  "toLowerCase s =
     map (\<lambda>c. case map_of (zip ''ABCDEFGHIJKLMNOPQRSTUVWXYZ'' ''abcdefghijklmnopqrstuvwxyz'') c of
                 None \<Rightarrow> c | Some d \<Rightarrow> d) s"

definition isLetter :: "char \<Rightarrow> bool" where
  "isLetter c = (c \<in> set ''abcdefghijklmnopqrstuvwxyzABCDEFGHIJKLMNOPQRSTUVWXYZ'')"

definition isDigit :: "char \<Rightarrow> bool" where
  "isDigit c = (c \<in> set ''0123456789'')"

definition splitScheme :: "string \<Rightarrow> (string \<times> string) option" where
  "splitScheme s =
     (let sch = takeWhile (\<lambda>c. c \<noteq> CHR '':'') s;
          rest = dropWhile (\<lambda>c. c \<noteq> CHR '':'') s
      in if sch \<noteq> [] \<and> isLetter (hd sch)
            \<and> list_all (\<lambda>c. isLetter c \<or> isDigit c \<or> c \<in> set ''+-.'') sch
            \<and> startsWith rest ''://''
         then Some (toLowerCase sch, drop 3 rest) else None)"

definition parseURL :: "string \<Rightarrow> url option" where
  "parseURL s =
     (let (s1, frag) = cutAt CHR ''#'' s;
          (s2, qry) = cutAt CHR ''?'' s1
      in case splitScheme s2 of
           None \<Rightarrow> None
         | Some (sch, rest) \<Rightarrow>
             let auth = takeWhile (\<lambda>c. c \<noteq> CHR ''/'') rest;
                 path = dropWhile (\<lambda>c. c \<noteq> CHR ''/'') rest;
                 (h, po) = cutAt CHR '':'' auth;
                 p = (case po of None \<Rightarrow> [] | Some d \<Rightarrow> d)
             in if h \<noteq> [] \<and> list_all (\<lambda>c. isLetter c \<or> isDigit c \<or> c \<in> set ''.-_'') h
                   \<and> list_all isDigit p
                then Some \<lparr>scheme = sch, hostname = toLowerCase h,
                           port = (if (sch = ''http'' \<and> p = ''80'') \<or> (sch = ''https'' \<and> p = ''443'')
                                   then [] else p),
                           pathname = (if path = [] then ''/'' else path),
                           query = qry, fragment = frag\<rparr>
                else None)"

section \<open>The sitemap tree builder\<close>

text \<open>
  A page record as the crawler hands it over. The identifier comes from the database and may be a
  number or a string; it is absent when the record was never stored. A missing title is the
  empty string: the builder tests both with \<^verbatim>\<open>!title\<close>.
\<close>

datatype page_ident = Num int | Str string

record page =
  page_id :: "page_ident option"
  page_url :: string
  page_title :: string
  page_depth :: int
  page_parentUrl :: "string option"

text \<open>
  An entry of \<^verbatim>\<open>pageMap\<close>: a cleaned page with its list of children. The source stores the
  child objects themselves; every such object is the entry of \<^verbatim>\<open>pageMap\<close> under its own URL,
  so the model stores that URL.
\<close>

record pnode =
  pn_id :: page_ident
  pn_url :: string
  pn_title :: string
  pn_depth :: int
  pn_parentUrl :: "string option"
  pn_status :: string
  pn_children :: "string list"

text \<open>A node of the result. \<^verbatim>\<open>children\<close> is only set when there is at least one child.\<close>

datatype sitemap_node =
  SitemapNode (node_id: page_ident) (node_url: string) (node_title: string) (node_depth: int)
    (node_status: string) (node_children: "sitemap_node list option")

subsection \<open>Titles\<close>

definition isWordChar :: "char \<Rightarrow> bool" where
  "isWordChar c = (isLetter c \<or> isDigit c \<or> c = CHR ''_'')"

definition toUpperChar :: "char \<Rightarrow> char" where
  "toUpperChar c =
     (case map_of (zip ''abcdefghijklmnopqrstuvwxyz'' ''ABCDEFGHIJKLMNOPQRSTUVWXYZ'') c of
        None \<Rightarrow> c | Some d \<Rightarrow> d)"

text \<open>
  \<^verbatim>\<open>s.replace(/\b\w/g, l => l.toUpperCase())\<close>: the first character of every run of word
  characters is put in upper case. The flag says whether the previous character was a word
  character.
\<close>

fun capitalizeWords :: "bool \<Rightarrow> string \<Rightarrow> string" where
  "capitalizeWords prev [] = []"
| "capitalizeWords prev (c # cs) =
     (if isWordChar c \<and> \<not> prev then toUpperChar c else c) # capitalizeWords (isWordChar c) cs"

definition humanize :: "string \<Rightarrow> string" where
  "humanize s = capitalizeWords False (map (\<lambda>c. if c = CHR ''-'' then CHR '' '' else c) s)"

definition orElse :: "string \<Rightarrow> string \<Rightarrow> string" where
  "orElse a b = (if a = [] then b else a)"

definition titleFromUrl :: "url \<Rightarrow> string" where
  "titleFromUrl u =
     (let h = drop 1 (hash u);
          pathParts = filter (\<lambda>p. p \<noteq> []) (splitOn CHR ''/'' (pathname u))
      in if h \<noteq> [] \<and> startsWith h ''/'' then
           orElse (humanize (last (splitOn CHR ''/'' (drop 1 h)))) ''Page''
         else if h \<noteq> [] then orElse (humanize h) ''Page''
         else if pathParts \<noteq> [] then humanize (last pathParts)
         else ''Home'')"

definition cleanTitle :: "(string \<Rightarrow> url option) \<Rightarrow> string \<Rightarrow> string \<Rightarrow> string" where
  "cleanTitle P u t =
     (if t = [] \<or> t = ''ERROR: Error'' \<or> t = ''Error'' \<or> t = ''ERROR'' \<or> startsWith t ''ERROR:''
      then (case P u of None \<Rightarrow> ''Page'' | Some uo \<Rightarrow> titleFromUrl uo)
      else t)"

subsection \<open>Cleaned pages\<close>

function showNat :: "nat \<Rightarrow> string" where
  "showNat n = (if n < 10 then [''0123456789'' ! n]
                else showNat (n div 10) @ [''0123456789'' ! (n mod 10)])"
  by pat_completeness auto
termination
  by (relation "measure (\<lambda>n. n)") auto

declare showNat.simps [simp del]

definition truthyId :: "page_ident option \<Rightarrow> bool" where
  "truthyId i = (case i of None \<Rightarrow> False | Some (Num n) \<Rightarrow> n \<noteq> 0 | Some (Str s) \<Rightarrow> s \<noteq> [])"

definition cleanPage :: "(string \<Rightarrow> url option) \<Rightarrow> nat \<Rightarrow> page \<Rightarrow> pnode" where
  "cleanPage P index p =
     \<lparr>pn_id = (if truthyId (page_id p) then the (page_id p) else Str (''page-'' @ showNat index)),
      pn_url = page_url p,
      pn_title = cleanTitle P (page_url p) (page_title p),
      pn_depth = page_depth p,
      pn_parentUrl = page_parentUrl p,
      pn_status = ''ok'',
      pn_children = []\<rparr>"

fun cleanPages :: "(string \<Rightarrow> url option) \<Rightarrow> nat \<Rightarrow> page list \<Rightarrow> pnode list" where
  "cleanPages P index [] = []"
| "cleanPages P index (p # ps) = cleanPage P index p # cleanPages P (Suc index) ps"

text \<open>The home page test of \<^verbatim>\<open>cleanedPages.find\<close>.\<close>

definition isHomePage :: "(string \<Rightarrow> url option) \<Rightarrow> pnode \<Rightarrow> bool" where
  "isHomePage P p =
     (case P (pn_url p) of
        None \<Rightarrow> False
      | Some u \<Rightarrow> (pathname u = ''/'' \<or> pathname u = [])
                  \<and> (hash u = [] \<or> hash u = ''#''))"

subsection \<open>The page map and the attachment pass\<close>

type_synonym pageMap = "string \<Rightarrow> pnode option"

text \<open>\<^verbatim>\<open>pageMap.set(page.url, {...page, children: []})\<close>.\<close>

definition setPage :: "pnode \<Rightarrow> pageMap \<Rightarrow> pageMap" where
  "setPage p m = m(pn_url p \<mapsto> p\<lparr>pn_children := []\<rparr>)"

text \<open>\<^verbatim>\<open>page.parentUrl && pageMap.has(page.parentUrl)\<close>: the key and the entry of the parent.\<close>

definition truthy :: "string option \<Rightarrow> bool" where
  "truthy s = (case s of None \<Rightarrow> False | Some t \<Rightarrow> t \<noteq> [])"

definition parentOf :: "pageMap \<Rightarrow> pnode \<Rightarrow> (string \<times> pnode) option" where
  "parentOf m p =
     (case pn_parentUrl p of
        None \<Rightarrow> None
      | Some q \<Rightarrow> if q = [] then None else map_option (Pair q) (m q))"

definition attach :: "string \<Rightarrow> pnode \<Rightarrow> pageMap \<times> string list \<Rightarrow> pageMap \<times> string list" where
  "attach rootUrl p st =
     (case st of (m, rootNodes) \<Rightarrow>
        (case parentOf m p of
           Some (q, parent) \<Rightarrow>
             (m(q \<mapsto> parent\<lparr>pn_children := pn_children parent @ [pn_url p]\<rparr>), rootNodes)
         | None \<Rightarrow>
             if pn_url p = rootUrl \<or> (\<not> truthy (pn_parentUrl p) \<and> pn_depth p = 0)
             then (m, rootNodes @ [pn_url p])
             else (m, rootNodes @ [pn_url p])))"

subsection \<open>Building the tree\<close>

text \<open>
  \<^verbatim>\<open>buildNode\<close> follows the children recursively. The recursion of the source is not bounded:
  it overflows the stack on a cycle of children. The model counts the nesting depth down and
  returns \<open>None\<close> when the count is used up.
\<close>

fun buildNode :: "nat \<Rightarrow> pageMap \<Rightarrow> string \<Rightarrow> sitemap_node option" where
  "buildNode 0 m k = None"
| "buildNode (Suc n) m k =
     (case m k of
        None \<Rightarrow> None
      | Some pn \<Rightarrow>
          (case those (map (buildNode n m) (pn_children pn)) of
             None \<Rightarrow> None
           | Some cs \<Rightarrow>
               Some (SitemapNode (pn_id pn) (pn_url pn) (orElse (pn_title pn) (pn_url pn))
                       (pn_depth pn) (orElse (pn_status pn) ''ok'')
                       (if cs = [] then None else Some cs))))"

definition emptyRoot :: sitemap_node where
  "emptyRoot = SitemapNode (Str ''root'') [] ''Root'' 0 ''ok'' (Some [])"

definition buildSitemapStructure ::
  "(string \<Rightarrow> url option) \<Rightarrow> nat \<Rightarrow> page list option \<Rightarrow> sitemap_node option" where
  "buildSitemapStructure P fuel pages =
     (case pages of
        None \<Rightarrow> Some emptyRoot
      | Some [] \<Rightarrow> Some emptyRoot
      | Some (p0 # ps) \<Rightarrow>
          (let cleanedPages = cleanPages P 0 (p0 # ps);
               rootPage = (case find (isHomePage P) cleanedPages of
                             Some r \<Rightarrow> r | None \<Rightarrow> hd cleanedPages);
               pageMap0 = fold setPage cleanedPages Map.empty;
               (pageMap, rootNodes0) = fold (attach (pn_url rootPage)) cleanedPages (pageMap0, []);
               rootNodes = (if rootNodes0 = [] then [pn_url (hd cleanedPages)] else rootNodes0)
           in if length rootNodes = 1 then buildNode fuel pageMap (hd rootNodes)
              else (case those (map (buildNode fuel pageMap) rootNodes) of
                      None \<Rightarrow> None
                    | Some cs \<Rightarrow>
                        Some (SitemapNode (Str ''root'')
                                (orElse (pn_url rootPage) (orElse (pn_url (hd cleanedPages)) []))
                                ''Root'' 0 ''ok'' (Some cs)))))"

subsection \<open>Reading the result\<close>

text \<open>The URLs of a tree, parent first, and the children of a node as a list.\<close>

primrec node_urls :: "sitemap_node \<Rightarrow> string list" where
  "node_urls (SitemapNode i u t d s cs) =
     u # concat (case map_option (map node_urls) cs of None \<Rightarrow> [] | Some ls \<Rightarrow> ls)"

definition kids :: "sitemap_node \<Rightarrow> sitemap_node list" where
  "kids t = (case node_children t of None \<Rightarrow> [] | Some cs \<Rightarrow> cs)"

text \<open>
  The parent a record is attached to: its \<^verbatim>\<open>parentUrl\<close>, when that is a non-empty string and
  the URL of a record of the input. The other records are top-level: those without parent and
  the orphans, whose parent is not among the records.
\<close>

definition effParent :: "string set \<Rightarrow> string option \<Rightarrow> string option" where
  "effParent D par = (case par of None \<Rightarrow> None | Some q \<Rightarrow> if q \<noteq> [] \<and> q \<in> D then Some q else None)"

definition attachedParent :: "page list \<Rightarrow> page \<Rightarrow> string option" where
  "attachedParent recs p = effParent (page_url ` set recs) (page_parentUrl p)"

definition topLevel :: "page list \<Rightarrow> page list" where
  "topLevel recs = filter (\<lambda>p. attachedParent recs p = None) recs"

text \<open>The parent references of the input, as pairs of a URL and the URL of its parent.\<close>

definition parentRefs :: "page list \<Rightarrow> (string \<times> string) set" where
  "parentRefs recs = {(page_url p, q) | p q. p \<in> set recs \<and> page_parentUrl p = Some q}"

text \<open>
  The nodes of the result that stand for top-level records: the result itself when there is
  exactly one, the children of the synthesized root otherwise.
\<close>

definition forest :: "page list \<Rightarrow> sitemap_node \<Rightarrow> sitemap_node list" where
  "forest recs t = (if length (topLevel recs) = 1 then [t] else kids t)"

text \<open>
  The node that stands for a page, as the specification describes it: it carries the identifier,
  the URL, the title (the URL in its place when the title is empty) and the depth of the page and
  the status \<^verbatim>\<open>ok\<close>, and its children are the nodes of the pages attached to it, in input
  order; the field \<^verbatim>\<open>children\<close> is left out when there is none. \<open>attachedTo cps (Some u)\<close> are
  the pages attached to the page with URL \<open>u\<close>, and \<open>attachedTo cps None\<close> are the top-level
  pages.
\<close>

definition attachedTo :: "pnode list \<Rightarrow> string option \<Rightarrow> pnode list" where
  "attachedTo cps k = filter (\<lambda>c. effParent (pn_url ` set cps) (pn_parentUrl c) = k) cps"

primrec nodeOf :: "sitemap_node \<Rightarrow> pnode list \<Rightarrow> pnode \<Rightarrow> bool" where
  "nodeOf (SitemapNode i u t d s cs) cps c =
     (i = pn_id c \<and> u = pn_url c \<and> t = orElse (pn_title c) (pn_url c) \<and> d = pn_depth c
      \<and> s = ''ok'' \<and> cs \<noteq> Some []
      \<and> list_all2 (\<lambda>x f. f cps x) (attachedTo cps (Some (pn_url c)))
           (case map_option (map nodeOf) cs of None \<Rightarrow> [] | Some fs \<Rightarrow> fs))"

text \<open>The URL that the synthesized root carries: that of the home page, or else of the first page.\<close>

definition virtualRootUrl :: "(string \<Rightarrow> url option) \<Rightarrow> pnode list \<Rightarrow> string" where
  "virtualRootUrl P cps =
     orElse (pn_url (case find (isHomePage P) cps of Some r \<Rightarrow> r | None \<Rightarrow> hd cps))
       (orElse (pn_url (hd cps)) [])"

subsection \<open>The state after the attachment pass\<close>

text \<open>
  For the proofs: every cleaned page with the parent it is attached to, the children and the
  top-level URLs read from that list, the edges from parent to child, and the page map as the
  two passes leave it.
\<close>

definition pageLinks :: "pnode list \<Rightarrow> (string \<times> string option) list" where
  "pageLinks cps = map (\<lambda>c. (pn_url c, effParent (pn_url ` set cps) (pn_parentUrl c))) cps"

definition childrenOf :: "(string \<times> string option) list \<Rightarrow> string \<Rightarrow> string list" where
  "childrenOf L k = map fst (filter (\<lambda>l. snd l = Some k) L)"

definition rootsOf :: "(string \<times> string option) list \<Rightarrow> string list" where
  "rootsOf L = map fst (filter (\<lambda>l. snd l = None) L)"

definition parentEdges :: "(string \<times> string option) list \<Rightarrow> (string \<times> string) set" where
  "parentEdges L = {(k, u). (u, Some k) \<in> set L}"

definition addChildren :: "(pnode \<Rightarrow> string option) \<Rightarrow> pnode list \<Rightarrow> string \<Rightarrow> pnode \<Rightarrow> pnode" where
  "addChildren ep cs k n =
     n\<lparr>pn_children := pn_children n @ map pn_url (filter (\<lambda>c. ep c = Some k) cs)\<rparr>"

definition finalMap :: "pnode list \<Rightarrow> pageMap" where
  "finalMap cps =
     (\<lambda>k. map_option
             (addChildren (\<lambda>c. effParent (pn_url ` set cps) (pn_parentUrl c)) cps k)
             (fold setPage cps Map.empty k))"

definition mapOK :: "pageMap \<Rightarrow> (string \<times> string option) list \<Rightarrow> bool" where
  "mapOK M L = (\<forall>u \<in> fst ` set L. \<exists>n. M u = Some n \<and> pn_url n = u \<and> pn_children n = childrenOf L u)"

definition closedLinks :: "(string \<times> string option) list \<Rightarrow> bool" where
  "closedLinks L = (\<forall>u k. (u, Some k) \<in> set L \<longrightarrow> k \<in> fst ` set L)"

text \<open>The entries of the list that lie under a top-level URL.\<close>

definition underRoots :: "(string \<times> string option) list \<Rightarrow> (string \<times> string option) list" where
  "underRoots L =
     filter (\<lambda>l. \<exists>r \<in> set (rootsOf L). (r, fst l) \<in> (parentEdges L)\<^sup>*) L"

section \<open>The Playwright crawler\<close>

text \<open>
  The traversal loop of \<^verbatim>\<open>crawlWebsite\<close> with its state: the visited set (a JavaScript
  \<^verbatim>\<open>Set\<close>, kept as a list without repetitions in insertion order), the queue, the pages and
  the rows stored so far. The browser, the database and the URL parser are given from outside.
  Starting the browser and reporting progress are not modelled.
\<close>

record item =
  item_url :: string
  item_depth :: int
  item_parentUrl :: "string option"

text \<open>A row of the table \<^verbatim>\<open>pages\<close>, as the \<^verbatim>\<open>INSERT\<close> statement writes it.\<close>

record row =
  row_url :: string
  row_depth :: int
  row_parentUrl :: "string option"
  row_title :: string
  row_status :: int

text \<open>
  What loading a URL in the browser gives: the navigation or the extraction throws, or there is a
  title and a list of links. \<^verbatim>\<open>crawlPage\<close> catches the exception.
\<close>

datatype nav = NavFailed | NavOk string "string list"

definition crawlPage :: "nav \<Rightarrow> string \<times> string list" where
  "crawlPage r = (case r of NavFailed \<Rightarrow> (''Untitled'', []) | NavOk t ls \<Rightarrow> (t, ls))"

text \<open>
  The surroundings of a job: the URL parser, the site as the browser shows it, and the database,
  which returns the new identifier or throws (\<open>None\<close>).
\<close>

record env =
  parse :: "string \<Rightarrow> url option"
  navigate :: "string \<Rightarrow> nav"
  insertPage :: "string \<Rightarrow> page_ident option"

record crawl =
  visited :: "string list"
  queue :: "item list"
  pages :: "page list"
  rows :: "row list"

definition CONCURRENCY :: nat where
  "CONCURRENCY = 6"

text \<open>The title clean-up of the crawler; unlike the builder's it has no prefix test.\<close>

definition cleanTitle_crawler :: "(string \<Rightarrow> url option) \<Rightarrow> string \<Rightarrow> string \<Rightarrow> string" where
  "cleanTitle_crawler P u t =
     (if t = [] \<or> t = ''ERROR: Error'' \<or> t = ''Error'' \<or> t = ''ERROR''
      then (case P u of None \<Rightarrow> ''Page'' | Some uo \<Rightarrow> titleFromUrl uo)
      else t)"

text \<open>
  The callbacks of one batch all run up to their first \<^verbatim>\<open>await\<close> before any page is loaded:
  every item of the batch is normalised, tested and entered into \<^verbatim>\<open>visited\<close>, in batch order.
  \<open>admitBatch\<close> is this first phase; it returns the new visited set and the items that go on,
  each with its canonical URL.
\<close>

fun admitBatch :: "env \<Rightarrow> int \<Rightarrow> item list \<Rightarrow> string list \<Rightarrow> string list \<times> (string \<times> item) list" where
  "admitBatch e maxDepth [] vis = (vis, [])"
| "admitBatch e maxDepth (it # its) vis =
     (case normalize_url (parse e) (item_url it) of
        None \<Rightarrow> admitBatch e maxDepth its vis
      | Some u \<Rightarrow>
          if u = [] \<or> u \<in> set vis \<or> item_depth it > maxDepth
          then admitBatch e maxDepth its vis
          else (case admitBatch e maxDepth its (vis @ [u]) of
                  (vis', adm) \<Rightarrow> (vis', (u, it) # adm)))"

text \<open>The link loop of one page.\<close>

fun enqueueLinks ::
  "env \<Rightarrow> string \<Rightarrow> int \<Rightarrow> string list \<Rightarrow> string \<Rightarrow> item \<Rightarrow> string list \<Rightarrow> item list" where
  "enqueueLinks e baseUrl maxDepth vis u it [] = []"
| "enqueueLinks e baseUrl maxDepth vis u it (link # links) =
     (case normalize_url (parse e) link of
        None \<Rightarrow> enqueueLinks e baseUrl maxDepth vis u it links
      | Some nl \<Rightarrow>
          if nl \<noteq> [] \<and> nl \<notin> set vis \<and> sameDomain (parse e) nl baseUrl \<and> item_depth it < maxDepth
          then \<lparr>item_url = nl, item_depth = item_depth it + 1, item_parentUrl = Some u\<rparr>
                 # enqueueLinks e baseUrl maxDepth vis u it links
          else enqueueLinks e baseUrl maxDepth vis u it links)"

text \<open>
  The second phase for one admitted item: load the page, clean the title, store the row with
  status 200 and push the page (both skipped when the database throws), push the new links.
  Pages of one batch are taken to finish in batch order; the visited set does not depend on
  that order, since only the first phase writes it.
\<close>

definition processPage :: "env \<Rightarrow> string \<Rightarrow> int \<Rightarrow> string \<times> item \<Rightarrow> crawl \<Rightarrow> crawl" where
  "processPage e baseUrl maxDepth ui st =
     (case ui of (u, it) \<Rightarrow>
        (case crawlPage (navigate e u) of (title, links) \<Rightarrow>
           let cleanedTitle = cleanTitle_crawler (parse e) u title;
               st1 = (case insertPage e u of
                        None \<Rightarrow> st
                      | Some i \<Rightarrow>
                          st\<lparr>rows := rows st @ [\<lparr>row_url = u, row_depth = item_depth it,
                                                  row_parentUrl = item_parentUrl it,
                                                  row_title = cleanedTitle, row_status = 200\<rparr>],
                             pages := pages st @ [\<lparr>page_id = Some i, page_url = u,
                                                    page_title = cleanedTitle,
                                                    page_depth = item_depth it,
                                                    page_parentUrl = item_parentUrl it\<rparr>]\<rparr>)
           in st1\<lparr>queue := queue st1 @ enqueueLinks e baseUrl maxDepth (visited st1) u it links\<rparr>))"

text \<open>One turn of the \<^verbatim>\<open>while\<close> loop.\<close>

definition crawlBatch :: "env \<Rightarrow> string \<Rightarrow> int \<Rightarrow> crawl \<Rightarrow> crawl" where
  "crawlBatch e baseUrl maxDepth st =
     (case admitBatch e maxDepth (take CONCURRENCY (queue st)) (visited st) of
        (vis', adm) \<Rightarrow>
          fold (processPage e baseUrl maxDepth) adm
            (st\<lparr>queue := drop CONCURRENCY (queue st), visited := vis'\<rparr>))"

function crawlLoop :: "env \<Rightarrow> string \<Rightarrow> int \<Rightarrow> int \<Rightarrow> crawl \<Rightarrow> crawl" where
  "crawlLoop e baseUrl maxDepth maxPages st =
     (if queue st \<noteq> [] \<and> int (length (visited st)) < maxPages
      then crawlLoop e baseUrl maxDepth maxPages (crawlBatch e baseUrl maxDepth st)
      else st)"
  by pat_completeness auto
termination
proof (relation "measures [\<lambda>(e, baseUrl, maxDepth, maxPages, st). nat (maxPages - int (length (visited st))),
                           \<lambda>(e, baseUrl, maxDepth, maxPages, st). length (queue st)]", goal_cases)
  case 1
  then show ?case by simp
next
  case (2 e baseUrl maxDepth maxPages st)
  have len: "length vis' = length vis + length adm"
    if "admitBatch e maxDepth its vis = (vis', adm)" for its vis vis' adm
    using that
  proof (induction its arbitrary: vis vis' adm)
    case Nil
    then show ?case by simp
  next
    case (Cons it its)
    then show ?case
      by (auto split: option.splits if_splits prod.splits)
  qed
  have keep: "visited (fold (processPage e baseUrl maxDepth) adm s) = visited s" for adm s
    by (induction adm arbitrary: s)
       (simp_all add: processPage_def Let_def split: prod.splits option.splits)
  obtain vis' adm where a: "admitBatch e maxDepth (take CONCURRENCY (queue st)) (visited st) = (vis', adm)"
    by (cases "admitBatch e maxDepth (take CONCURRENCY (queue st)) (visited st)") auto
  have v: "visited (crawlBatch e baseUrl maxDepth st) = vis'"
    using a by (simp add: crawlBatch_def keep)
  have l: "length vis' = length (visited st) + length adm"
    using a by (rule len)
  show ?case
  proof (cases adm)
    case Nil
    with a have "queue (crawlBatch e baseUrl maxDepth st) = drop CONCURRENCY (queue st)"
      by (simp add: crawlBatch_def)
    with 2 v l Nil show ?thesis by (simp add: CONCURRENCY_def)
  next
    case (Cons x xs)
    with 2 v l show ?thesis by simp
  qed
qed

declare crawlLoop.simps [simp del]

text \<open>
  \<^verbatim>\<open>crawlWebsite\<close>. \<open>None\<close> is the exception of \<^verbatim>\<open>new URL(baseUrl)\<close> in front of the loop.
  The source returns the field \<open>pages\<close> of the final state.
\<close>

definition crawlWebsite :: "env \<Rightarrow> string \<Rightarrow> int \<Rightarrow> int \<Rightarrow> crawl option" where
  "crawlWebsite e domain maxDepth maxPages =
     (let baseUrl = (if startsWith domain ''http'' then domain else ''https://'' @ domain)
      in case parse e baseUrl of
           None \<Rightarrow> None
         | Some b \<Rightarrow>
             Some (crawlLoop e baseUrl maxDepth maxPages
                     \<lparr>visited = [],
                      queue = [\<lparr>item_url = baseUrl, item_depth = 0, item_parentUrl = None\<rparr>],
                      pages = [], rows = []\<rparr>))"

text \<open>
  For comparison: the same surroundings, with every link that the parser rejects taken out of
  the pages.
\<close>

definition withoutRejectedLinks :: "env \<Rightarrow> env" where
  "withoutRejectedLinks e =
     e\<lparr>navigate := (\<lambda>u. case navigate e u of
                            NavFailed \<Rightarrow> NavFailed
                          | NavOk t ls \<Rightarrow> NavOk t (filter (\<lambda>l. parse e l \<noteq> None) ls))\<rparr>"

section \<open>A small site for concrete runs\<close>

text \<open>
  The home page of \<^verbatim>\<open>a.com\<close> links to two pages; the first of them cannot be loaded. The
  database accepts every row.
\<close>

definition demoSite :: "string \<Rightarrow> nav" where
  "demoSite u =
     (if u = ''https://a.com'' then NavOk ''Home'' [''https://a.com/x'', ''https://a.com/y'']
      else if u = ''https://a.com/x'' then NavFailed
      else NavOk ''Y'' [])"

definition demoEnv :: env where
  "demoEnv = \<lparr>parse = parseURL, navigate = demoSite, insertPage = (\<lambda>u. Some (Str u))\<rparr>"

text \<open>A second site: the home page carries a link that does not parse and a link to one page.\<close>

definition demoBadLinkSite :: "string \<Rightarrow> nav" where
  "demoBadLinkSite u =
     (if u = ''https://a.com'' then NavOk ''Home'' [''not a url?x=1'', ''https://a.com/y'']
      else NavOk ''Y'' [])"

definition demoBadLinkEnv :: env where
  "demoBadLinkEnv =
     \<lparr>parse = parseURL, navigate = demoBadLinkSite, insertPage = (\<lambda>u. Some (Str u))\<rparr>"

text \<open>
  Records for the builder: the chain of the specification's example, the chain with an orphan,
  and two records without parent.
\<close>

definition demoChain :: "page list" where
  "demoChain =
     [\<lparr>page_id = Some (Num 1), page_url = ''https://a.com'', page_title = ''Home'',
        page_depth = 0, page_parentUrl = None\<rparr>,
      \<lparr>page_id = Some (Num 2), page_url = ''https://a.com/a'', page_title = ''A'',
        page_depth = 1, page_parentUrl = Some ''https://a.com''\<rparr>,
      \<lparr>page_id = Some (Num 3), page_url = ''https://a.com/a/b'', page_title = ''B'',
        page_depth = 2, page_parentUrl = Some ''https://a.com/a''\<rparr>]"

definition demoRecords :: "page list" where
  "demoRecords =
     [\<lparr>page_id = Some (Num 1), page_url = ''https://a.com'', page_title = ''Home'',
        page_depth = 0, page_parentUrl = None\<rparr>,
      \<lparr>page_id = Some (Num 2), page_url = ''https://a.com/a'', page_title = ''A'',
        page_depth = 1, page_parentUrl = Some ''https://a.com''\<rparr>,
      \<lparr>page_id = Some (Num 3), page_url = ''https://a.com/a/b'', page_title = ''B'',
        page_depth = 2, page_parentUrl = Some ''https://a.com/a''\<rparr>,
      \<lparr>page_id = Some (Num 4), page_url = ''https://a.com/old/page'', page_title = ''Old'',
        page_depth = 2, page_parentUrl = Some ''https://a.com/old''\<rparr>]"

definition demoTwoRoots :: "page list" where
  "demoTwoRoots =
     [\<lparr>page_id = Some (Num 1), page_url = ''https://a.com'', page_title = ''Home'',
        page_depth = 0, page_parentUrl = None\<rparr>,
      \<lparr>page_id = Some (Num 2), page_url = ''https://a.com/about'', page_title = ''About'',
        page_depth = 0, page_parentUrl = None\<rparr>]"

section \<open>Evaluation of the concrete parser\<close>

lemmas parseURL_eval =
  parseURL_def cutAt_def splitScheme_def isLetter_def isDigit_def toLowerCase_def

lemmas url_eval =
  hash_def clearHash_def clearSearch_def href_def origin_def stripTrailingSlash_def

section \<open>Facts about normalisation\<close>

lemma startsWith_hash_fragment:
  "startsWith (hash u) ''#/'' \<Longrightarrow> \<exists>f. fragment u = Some f \<and> f \<noteq> [] \<and> hash u = CHR ''#'' # f"
  by (auto simp: hash_def split: option.splits if_splits)

lemma href_no_query_no_fragment:
  "href (clearSearch (clearHash u)) = origin u @ pathname u"
  by (simp add: href_def clearSearch_def clearHash_def origin_def)

lemma href_no_query:
  "href (clearSearch u) = origin u @ pathname u @ (case fragment u of None \<Rightarrow> [] | Some f \<Rightarrow> CHR ''#'' # f)"
  by (simp add: href_def clearSearch_def origin_def)

lemma normalize_drops_fragment:
  assumes "P raw = Some u" and "\<not> startsWith (hash u) ''#/''"
  shows "normalize_url P raw = Some (stripTrailingSlash (origin u @ pathname u))"
  using assms by (simp add: normalize_url_def normalizeUrl_def href_no_query_no_fragment)

lemma normalize_keeps_route:
  assumes "P raw = Some u" and "startsWith (hash u) ''#/''" and "includesStr raw ''#/''"
  shows "normalize_url P raw = Some (stripTrailingSlash (origin u @ pathname u @ hash u))"
proof -
  from assms(2) obtain f where f: "fragment u = Some f" "f \<noteq> []" "hash u = CHR ''#'' # f"
    using startsWith_hash_fragment by blast
  with assms show ?thesis
    by (simp add: normalize_url_def normalizeUrl_def href_no_query)
qed

lemma stripTrailingSlash_append_keep:
  "t \<noteq> [] \<Longrightarrow> last t \<noteq> CHR ''/'' \<Longrightarrow> stripTrailingSlash (s @ t) = s @ t"
  by (simp add: stripTrailingSlash_def)

lemma stripTrailingSlash_append_slash: "stripTrailingSlash (s @ ''/'') = s"
  by (simp add: stripTrailingSlash_def)

lemma splitOn_nonempty: "splitOn c s \<noteq> []"
  by (induction s) (auto split: list.splits)

lemma hd_splitOn: "hd (splitOn c s) = takeWhile (\<lambda>x. x \<noteq> c) s"
  using splitOn_nonempty [of c] by (induction s) (auto split: list.splits)

lemma normalize_malformed: "P raw = None \<Longrightarrow> normalize_url P raw = None"
  by (simp add: normalize_url_def normalizeUrl_def)

lemma includesStr_char: "includesStr s [c] \<longleftrightarrow> c \<in> set s"
  by (induction s) auto

lemma splitOn_second:
  "c \<in> set s \<Longrightarrow> splitOn c s ! Suc 0 = takeWhile (\<lambda>x. x \<noteq> c) (tl (dropWhile (\<lambda>x. x \<noteq> c) s))"
proof (induction s)
  case Nil
  then show ?case by simp
next
  case (Cons x xs)
  show ?case
  proof (cases "x = c")
    case True
    then show ?thesis by (simp add: hd_splitOn [symmetric] hd_conv_nth splitOn_nonempty)
  next
    case False
    with Cons.prems have "c \<in> set xs" by simp
    with Cons.IH False show ?thesis
      using splitOn_nonempty [of c xs] by (cases "splitOn c xs") auto
  qed
qed

lemma normalizeUrl_puppeteer_rejected:
  "P raw = None \<Longrightarrow>
   normalizeUrl_puppeteer P raw =
     (if CHR ''#'' \<in> set raw
      then takeWhile (\<lambda>c. c \<noteq> CHR ''?'') (takeWhile (\<lambda>c. c \<noteq> CHR ''#'') raw)
           @ (let f = takeWhile (\<lambda>c. c \<noteq> CHR ''#'') (tl (dropWhile (\<lambda>c. c \<noteq> CHR ''#'') raw))
              in if f = [] then [] else CHR ''#'' # f)
      else takeWhile (\<lambda>c. c \<noteq> CHR ''?'') raw)"
  by (simp add: normalizeUrl_puppeteer_def includesStr_char hd_splitOn splitOn_second Let_def)

section \<open>Facts about the builder\<close>

subsection \<open>The page map after the two passes\<close>

lemma cleanPages_urls: "map pn_url (cleanPages P i ps) = map page_url ps"
  by (induction ps arbitrary: i) (simp_all add: cleanPage_def)

lemma cleanPages_parents: "map pn_parentUrl (cleanPages P i ps) = map page_parentUrl ps"
  by (induction ps arbitrary: i) (simp_all add: cleanPage_def)

lemma dom_fold_setPage: "dom (fold setPage cps m) = dom m \<union> pn_url ` set cps"
  by (induction cps arbitrary: m) (auto simp: setPage_def)

lemma fold_setPage_entries:
  assumes "\<And>k n. m k = Some n \<Longrightarrow> pn_url n = k \<and> pn_children n = []"
    and "fold setPage cps m k = Some n"
  shows "pn_url n = k \<and> pn_children n = []"
  using assms
proof (induction cps arbitrary: m)
  case Nil
  then show ?case by simp
next
  case (Cons c cps)
  have "\<And>k n. setPage c m k = Some n \<Longrightarrow> pn_url n = k \<and> pn_children n = []"
    using Cons.prems(1) by (auto simp: setPage_def split: if_splits)
  with Cons.IH [of "setPage c m"] Cons.prems(2) show ?case by simp
qed

lemma parentOf_effParent:
  "parentOf m c = (case effParent (dom m) (pn_parentUrl c) of
                     None \<Rightarrow> None | Some q \<Rightarrow> map_option (Pair q) (m q))"
  by (auto simp: parentOf_def effParent_def split: option.splits)

lemma addChildren_Cons_other:
  "ep c \<noteq> Some k \<Longrightarrow> addChildren ep (c # cs) k = addChildren ep cs k"
  by (rule ext) (simp add: addChildren_def)

lemma addChildren_Cons_same:
  "ep c = Some k \<Longrightarrow>
   addChildren ep (c # cs) k n
     = addChildren ep cs k (n\<lparr>pn_children := pn_children n @ [pn_url c]\<rparr>)"
  by (simp add: addChildren_def)

lemma fold_attach:
  "fold (attach r) cs (m, roots)
     = ((\<lambda>k. map_option (addChildren (\<lambda>c. effParent (dom m) (pn_parentUrl c)) cs k) (m k)),
        roots @ map pn_url (filter (\<lambda>c. effParent (dom m) (pn_parentUrl c) = None) cs))"
proof (induction cs arbitrary: m roots)
  case Nil
  show ?case by (simp add: addChildren_def fun_eq_iff option.map_ident)
next
  case (Cons c cs)
  show ?case
  proof (cases "effParent (dom m) (pn_parentUrl c)")
    case None
    then have "attach r c (m, roots) = (m, roots @ [pn_url c])"
      by (simp add: attach_def parentOf_effParent)
    with None Cons.IH [of m "roots @ [pn_url c]"] show ?thesis
      by (simp add: addChildren_def)
  next
    case (Some q)
    then have "q \<in> dom m"
      by (auto simp: effParent_def split: option.splits if_splits)
    then obtain parent where parent: "m q = Some parent" by auto
    let ?m1 = "m(q \<mapsto> parent\<lparr>pn_children := pn_children parent @ [pn_url c]\<rparr>)"
    have a: "attach r c (m, roots) = (?m1, roots)"
      using Some parent by (simp add: attach_def parentOf_effParent)
    have d: "dom ?m1 = dom m"
      using parent by auto
    have "fold (attach r) (c # cs) (m, roots) = fold (attach r) cs (?m1, roots)"
      using a by simp
    also have "\<dots> = ((\<lambda>k. map_option (addChildren (\<lambda>c. effParent (dom ?m1) (pn_parentUrl c)) cs k) (?m1 k)),
        roots @ map pn_url (filter (\<lambda>c. effParent (dom ?m1) (pn_parentUrl c) = None) cs))"
      by (rule Cons.IH)
    also have "\<dots> = ((\<lambda>k. map_option (addChildren (\<lambda>c. effParent (dom m) (pn_parentUrl c)) (c # cs) k) (m k)),
        roots @ map pn_url (filter (\<lambda>c. effParent (dom m) (pn_parentUrl c) = None) (c # cs)))"
      unfolding d using Some parent
      by (auto simp: fun_eq_iff addChildren_Cons_other addChildren_Cons_same)
    finally show ?thesis .
  qed
qed

subsection \<open>Trees built from a page map\<close>

lemma node_urls_kids: "node_urls t = node_url t # concat (map node_urls (kids t))"
  by (cases t) (simp add: kids_def split: option.splits)

lemma those_eq_Some: "those xs = Some ys \<longleftrightarrow> xs = map Some ys"
proof (induction xs arbitrary: ys)
  case Nil
  show ?case by auto
next
  case (Cons x xs)
  show ?case
    by (cases x; cases ys) (auto simp: Cons.IH split: option.splits)
qed

lemma those_map_Some: "those (map Some ts) = Some ts"
  by (simp add: those_eq_Some)

lemma map_Some_mono:
  assumes "\<And>x y. x \<in> set xs \<Longrightarrow> f x = Some y \<Longrightarrow> g x = Some y"
    and "map f xs = map Some ys"
  shows "map g xs = map Some ys"
  using assms
proof (induction xs arbitrary: ys)
  case Nil
  then show ?case by simp
next
  case (Cons x xs)
  then show ?case by (cases ys) auto
qed

lemma buildNode_Suc_Some:
  "buildNode (Suc n) M x = Some t \<longleftrightarrow>
     (\<exists>pn ts. M x = Some pn \<and> map (buildNode n M) (pn_children pn) = map Some ts
        \<and> t = SitemapNode (pn_id pn) (pn_url pn) (orElse (pn_title pn) (pn_url pn))
                 (pn_depth pn) (orElse (pn_status pn) ''ok'') (if ts = [] then None else Some ts))"
  by (auto simp: those_eq_Some those_map_Some split: option.splits)

lemma kids_SitemapNode: "kids (SitemapNode i u t d s (if ts = [] then None else Some ts)) = ts"
  by (simp add: kids_def)

lemma buildNode_mono: "buildNode n M x = Some t \<Longrightarrow> buildNode (n + j) M x = Some t"
proof (induction n arbitrary: x t)
  case 0
  then show ?case by simp
next
  case (Suc n)
  from Suc.prems obtain pn ts where pn: "M x = Some pn"
    and ts: "map (buildNode n M) (pn_children pn) = map Some ts"
    and t: "t = SitemapNode (pn_id pn) (pn_url pn) (orElse (pn_title pn) (pn_url pn))
                 (pn_depth pn) (orElse (pn_status pn) ''ok'') (if ts = [] then None else Some ts)"
    unfolding buildNode_Suc_Some by blast
  have "map (buildNode (n + j) M) (pn_children pn) = map Some ts"
    using Suc.IH ts by (rule map_Some_mono)
  with pn t have "buildNode (Suc (n + j)) M x = Some t"
    unfolding buildNode_Suc_Some by blast
  then show ?case by simp
qed

lemma buildNode_le: "buildNode n M x = Some t \<Longrightarrow> n \<le> n' \<Longrightarrow> buildNode n' M x = Some t"
  using buildNode_mono [of n M x t "n' - n"] by simp

lemma rtrancl_Image_unfold: "r\<^sup>* `` {x} = insert x (r\<^sup>* `` (r `` {x}))"
  by (auto elim: converse_rtranclE intro: converse_rtrancl_into_rtrancl)

lemma parentEdges_Image: "parentEdges L `` {x} = set (childrenOf L x)"
  by (force simp: parentEdges_def childrenOf_def)

lemma childrenOf_subset: "set (childrenOf L x) \<subseteq> fst ` set L"
  by (auto simp: childrenOf_def)

lemma map_Some_list_all2:
  "map f cs = map Some ts \<Longrightarrow> list_all2 (\<lambda>c t. f c = Some t) cs ts"
proof (induction cs arbitrary: ts)
  case Nil
  then show ?case by simp
next
  case (Cons c cs)
  then show ?case by (cases ts) auto
qed

lemma set_concat_list_all2:
  "list_all2 (\<lambda>c t. set (h t) = g c) cs ts \<Longrightarrow> set (concat (map h ts)) = (\<Union>c \<in> set cs. g c)"
  by (induction rule: list_all2_induct) auto

lemma buildNode_set:
  assumes ok: "mapOK M L"
  shows "x \<in> fst ` set L \<Longrightarrow> buildNode n M x = Some t
         \<Longrightarrow> node_url t = x \<and> set (node_urls t) = (parentEdges L)\<^sup>* `` {x}"
proof (induction n arbitrary: x t)
  case 0
  then show ?case by simp
next
  case (Suc n)
  from ok Suc.prems(1) obtain pn0 where pn0: "M x = Some pn0" "pn_url pn0 = x"
      "pn_children pn0 = childrenOf L x"
    unfolding mapOK_def by blast
  from Suc.prems(2) pn0 obtain ts where
    ts: "map (buildNode n M) (childrenOf L x) = map Some ts"
    and t: "t = SitemapNode (pn_id pn0) x (orElse (pn_title pn0) x)
                 (pn_depth pn0) (orElse (pn_status pn0) ''ok'') (if ts = [] then None else Some ts)"
    unfolding buildNode_Suc_Some by auto
  have k: "kids t = ts" unfolding t by (rule kids_SitemapNode)
  have u: "node_url t = x" unfolding t by simp
  have "list_all2 (\<lambda>c t. buildNode n M c = Some t) (childrenOf L x) ts"
    using ts by (rule map_Some_list_all2)
  then have "list_all2 (\<lambda>c t. set (node_urls t) = (parentEdges L)\<^sup>* `` {c}) (childrenOf L x) ts"
  proof (rule list.rel_mono_strong)
    fix c t' assume "c \<in> set (childrenOf L x)" and "buildNode n M c = Some t'"
    with Suc.IH [of c t'] childrenOf_subset [of L x]
    show "set (node_urls t') = (parentEdges L)\<^sup>* `` {c}" by blast
  qed
  then have "set (concat (map node_urls ts)) = (\<Union>c \<in> set (childrenOf L x). (parentEdges L)\<^sup>* `` {c})"
    by (rule set_concat_list_all2)
  also have "\<dots> = (parentEdges L)\<^sup>* `` (parentEdges L `` {x})"
    unfolding parentEdges_Image by blast
  finally have "set (node_urls t) = (parentEdges L)\<^sup>* `` {x}"
    using rtrancl_Image_unfold [of "parentEdges L" x] node_urls_kids [of t] k u by simp
  with u show ?case by simp
qed

subsection \<open>Descendants\<close>

text \<open>
  With pairwise distinct URLs every page has at most one parent, so two pages of which neither
  lies under the other have no descendant in common.
\<close>

lemma single_valued_parent:
  "distinct (map fst L) \<Longrightarrow> single_valued ((parentEdges L)\<inverse>)"
  unfolding single_valued_def parentEdges_def
  by (auto dest: eq_key_imp_eq_value)

lemma finite_parentEdges: "finite (parentEdges L)"
proof -
  have "parentEdges L \<subseteq> (\<lambda>l. (the (snd l), fst l)) ` set L"
    by (force simp: parentEdges_def)
  then show ?thesis by (rule finite_surj [rotated]) simp
qed

lemma disjoint_descendants:
  assumes sv: "single_valued (E\<inverse>)" and ab: "(a, b) \<notin> E\<^sup>*" and ba: "(b, a) \<notin> E\<^sup>*"
  shows "E\<^sup>* `` {a} \<inter> E\<^sup>* `` {b} = {}"
proof (rule ccontr)
  assume "E\<^sup>* `` {a} \<inter> E\<^sup>* `` {b} \<noteq> {}"
  then obtain y where "(a, y) \<in> E\<^sup>*" and "(b, y) \<in> E\<^sup>*" by auto
  then have "(y, a) \<in> (E\<inverse>)\<^sup>*" and "(y, b) \<in> (E\<inverse>)\<^sup>*"
    by (simp_all add: rtrancl_converse)
  with sv have "(a, b) \<in> (E\<inverse>)\<^sup>* \<or> (b, a) \<in> (E\<inverse>)\<^sup>*"
    by (rule single_valued_confluent)
  then have "(b, a) \<in> E\<^sup>* \<or> (a, b) \<in> E\<^sup>*"
    by (simp add: rtrancl_converse)
  with ab ba show False by blast
qed

lemma sibling_not_descendant:
  assumes sv: "single_valued (E\<inverse>)" and ac: "acyclic E"
    and c1: "(x, c1) \<in> E" and c2: "(x, c2) \<in> E" and ne: "c1 \<noteq> c2"
  shows "(c1, c2) \<notin> E\<^sup>*"
proof
  assume "(c1, c2) \<in> E\<^sup>*"
  with ne have "(c1, c2) \<in> E\<^sup>+" by (simp add: rtrancl_eq_or_trancl)
  then obtain z where z: "(c1, z) \<in> E\<^sup>*" "(z, c2) \<in> E"
    by (blast dest: tranclD2)
  from sv z(2) c2 have "z = x"
    by (auto dest: single_valuedD)
  with z(1) c1 have "(x, x) \<in> E\<^sup>+" by (blast intro: rtrancl_into_trancl2)
  with ac show False by (simp add: acyclic_def)
qed

lemma distinct_concat_list_all2:
  assumes "list_all2 (\<lambda>c t. distinct (h t) \<and> set (h t) = g c) cs ts"
    and "distinct cs"
    and "\<And>a b. a \<in> set cs \<Longrightarrow> b \<in> set cs \<Longrightarrow> a \<noteq> b \<Longrightarrow> g a \<inter> g b = {}"
  shows "distinct (concat (map h ts)) \<and> set (concat (map h ts)) = (\<Union>c \<in> set cs. g c)"
  using assms
proof (induction rule: list_all2_induct)
  case Nil
  then show ?case by simp
next
  case (Cons c cs t ts)
  have ih: "distinct (concat (map h ts)) \<and> set (concat (map h ts)) = (\<Union>c \<in> set cs. g c)"
    using Cons by auto
  have "g c \<inter> (\<Union>c \<in> set cs. g c) = {}"
    using Cons.prems by fastforce
  with Cons.hyps(1) ih show ?case by auto
qed

lemma distinct_childrenOf: "distinct (map fst L) \<Longrightarrow> distinct (childrenOf L x)"
  by (simp add: childrenOf_def distinct_map_filter)

lemma distinct_rootsOf: "distinct (map fst L) \<Longrightarrow> distinct (rootsOf L)"
  by (simp add: rootsOf_def distinct_map_filter)

lemma buildNode_distinct:
  assumes ok: "mapOK M L" and d: "distinct (map fst L)" and ac: "acyclic (parentEdges L)"
  shows "x \<in> fst ` set L \<Longrightarrow> buildNode n M x = Some t \<Longrightarrow> distinct (node_urls t)"
proof (induction n arbitrary: x t)
  case 0
  then show ?case by simp
next
  case (Suc n)
  let ?E = "parentEdges L"
  have sv: "single_valued (?E\<inverse>)" using d by (rule single_valued_parent)
  from ok Suc.prems(1) obtain pn0 where pn0: "M x = Some pn0" "pn_url pn0 = x"
      "pn_children pn0 = childrenOf L x"
    unfolding mapOK_def by blast
  from Suc.prems(2) pn0 obtain ts where
    ts: "map (buildNode n M) (childrenOf L x) = map Some ts"
    and t: "t = SitemapNode (pn_id pn0) x (orElse (pn_title pn0) x)
                 (pn_depth pn0) (orElse (pn_status pn0) ''ok'') (if ts = [] then None else Some ts)"
    unfolding buildNode_Suc_Some by auto
  have k: "kids t = ts" unfolding t by (rule kids_SitemapNode)
  have u: "node_url t = x" unfolding t by simp
  have "list_all2 (\<lambda>c t. buildNode n M c = Some t) (childrenOf L x) ts"
    using ts by (rule map_Some_list_all2)
  then have all2: "list_all2 (\<lambda>c t. distinct (node_urls t) \<and> set (node_urls t) = ?E\<^sup>* `` {c})
                     (childrenOf L x) ts"
  proof (rule list.rel_mono_strong)
    fix c t' assume c: "c \<in> set (childrenOf L x)" and b: "buildNode n M c = Some t'"
    from c have "c \<in> fst ` set L" using childrenOf_subset [of L x] by blast
    with Suc.IH [of c t'] buildNode_set [OF ok, of c n t'] b
    show "distinct (node_urls t') \<and> set (node_urls t') = ?E\<^sup>* `` {c}" by blast
  qed
  have disj: "\<And>a b. a \<in> set (childrenOf L x) \<Longrightarrow> b \<in> set (childrenOf L x) \<Longrightarrow> a \<noteq> b
               \<Longrightarrow> ?E\<^sup>* `` {a} \<inter> ?E\<^sup>* `` {b} = {}"
  proof -
    fix a b assume "a \<in> set (childrenOf L x)" "b \<in> set (childrenOf L x)" "a \<noteq> b"
    then have e: "(x, a) \<in> ?E" "(x, b) \<in> ?E" "a \<noteq> b" "b \<noteq> a"
      using parentEdges_Image [of L x] by auto
    show "?E\<^sup>* `` {a} \<inter> ?E\<^sup>* `` {b} = {}"
      using sv sibling_not_descendant [OF sv ac e(1) e(2) e(3)]
        sibling_not_descendant [OF sv ac e(2) e(1) e(4)]
      by (rule disjoint_descendants)
  qed
  have cc: "distinct (concat (map node_urls ts))
            \<and> set (concat (map node_urls ts)) = (\<Union>c \<in> set (childrenOf L x). ?E\<^sup>* `` {c})"
    using all2 distinct_childrenOf [OF d] disj by (rule distinct_concat_list_all2)
  have "x \<notin> (\<Union>c \<in> set (childrenOf L x). ?E\<^sup>* `` {c})"
  proof
    assume "x \<in> (\<Union>c \<in> set (childrenOf L x). ?E\<^sup>* `` {c})"
    then obtain c where "(x, c) \<in> ?E" "(c, x) \<in> ?E\<^sup>*"
      using parentEdges_Image [of L x] by auto
    then have "(x, x) \<in> ?E\<^sup>+" by (rule rtrancl_into_trancl2)
    with ac show False by (simp add: acyclic_def)
  qed
  with cc show ?case
    using node_urls_kids [of t] k u by simp
qed

lemma buildNode_exists:
  assumes ok: "mapOK M L" and ac: "acyclic (parentEdges L)"
  shows "x \<in> fst ` set L \<Longrightarrow> \<exists>n t. buildNode n M x = Some t"
proof -
  have wf: "wf ((parentEdges L)\<inverse>)"
    using finite_parentEdges ac by (rule finite_acyclic_wf_converse)
  show "x \<in> fst ` set L \<Longrightarrow> \<exists>n t. buildNode n M x = Some t"
    using wf
  proof (induction x rule: wf_induct_rule)
    case (less x)
    from ok less.prems obtain pn0 where pn0: "M x = Some pn0" "pn_url pn0 = x"
      "pn_children pn0 = childrenOf L x"
      unfolding mapOK_def by blast
    have "\<forall>c \<in> set (childrenOf L x). \<exists>nt. buildNode (fst nt) M c = Some (snd nt)"
    proof
      fix c assume c: "c \<in> set (childrenOf L x)"
      then have "(c, x) \<in> (parentEdges L)\<inverse>" using parentEdges_Image [of L x] by auto
      moreover from c have "c \<in> fst ` set L" using childrenOf_subset [of L x] by blast
      ultimately show "\<exists>nt. buildNode (fst nt) M c = Some (snd nt)"
        using less.IH [of c] by auto
    qed
    then have "\<exists>f. \<forall>c \<in> set (childrenOf L x). buildNode (fst (f c)) M c = Some (snd (f c))"
      by (rule bchoice)
    then obtain f where f: "\<forall>c \<in> set (childrenOf L x). buildNode (fst (f c)) M c = Some (snd (f c))"
      by blast
    let ?N = "sum_list (map (\<lambda>c. fst (f c)) (childrenOf L x))"
    have "map (buildNode ?N M) (childrenOf L x) = map Some (map (\<lambda>c. snd (f c)) (childrenOf L x))"
    proof (simp, intro ballI)
      fix c assume c: "c \<in> set (childrenOf L x)"
      then have "fst (f c) \<le> ?N"
        by (intro member_le_sum_list) auto
      with f c show "buildNode ?N M c = Some (snd (f c))"
        by (blast intro: buildNode_le)
    qed
    with pn0 have "buildNode (Suc ?N) M x
        = Some (SitemapNode (pn_id pn0) (pn_url pn0) (orElse (pn_title pn0) (pn_url pn0))
                 (pn_depth pn0) (orElse (pn_status pn0) ''ok'')
                 (if map (\<lambda>c. snd (f c)) (childrenOf L x) = [] then None
                  else Some (map (\<lambda>c. snd (f c)) (childrenOf L x))))"
      unfolding buildNode_Suc_Some
      by (intro exI [of _ pn0] exI [of _ "map (\<lambda>c. snd (f c)) (childrenOf L x)"]) simp
    then show ?case by blast
  qed
qed

subsection \<open>The trees of the top-level pages\<close>

lemma rootsOf_subset: "set (rootsOf L) \<subseteq> fst ` set L"
  by (auto simp: rootsOf_def)

lemma root_not_descendant:
  assumes d: "distinct (map fst L)" and r2: "r2 \<in> set (rootsOf L)" and ne: "r1 \<noteq> r2"
  shows "(r1, r2) \<notin> (parentEdges L)\<^sup>*"
proof
  assume "(r1, r2) \<in> (parentEdges L)\<^sup>*"
  with ne have "(r1, r2) \<in> (parentEdges L)\<^sup>+" by (simp add: rtrancl_eq_or_trancl)
  then obtain z where "(z, r2) \<in> parentEdges L" by (blast dest: tranclD2)
  then have "(r2, Some z) \<in> set L" by (simp add: parentEdges_def)
  moreover from r2 have "(r2, None) \<in> set L" by (auto simp: rootsOf_def)
  ultimately show False using d by (auto dest: eq_key_imp_eq_value)
qed

lemma descendants_in_links:
  "(x, y) \<in> (parentEdges L)\<^sup>* \<Longrightarrow> x \<in> fst ` set L \<Longrightarrow> y \<in> fst ` set L"
  by (induction rule: rtrancl_induct) (force simp: parentEdges_def)+

lemma every_page_under_a_root:
  assumes ac: "acyclic (parentEdges L)" and cl: "closedLinks L"
  shows "x \<in> fst ` set L \<Longrightarrow> \<exists>r \<in> set (rootsOf L). (r, x) \<in> (parentEdges L)\<^sup>*"
proof -
  have wf: "wf (parentEdges L)"
    using finite_parentEdges ac by (rule finite_acyclic_wf)
  show "x \<in> fst ` set L \<Longrightarrow> \<exists>r \<in> set (rootsOf L). (r, x) \<in> (parentEdges L)\<^sup>*"
    using wf
  proof (induction x rule: wf_induct_rule)
    case (less x)
    from less.prems obtain q where q: "(x, q) \<in> set L" by auto
    show ?case
    proof (cases q)
      case None
      with q have "x \<in> set (rootsOf L)" by (force simp: rootsOf_def)
      then show ?thesis by blast
    next
      case (Some k)
      with q have e: "(k, x) \<in> parentEdges L" by (simp add: parentEdges_def)
      from q Some cl have "k \<in> fst ` set L" unfolding closedLinks_def by blast
      with less.IH [OF e] obtain r where "r \<in> set (rootsOf L)" "(r, k) \<in> (parentEdges L)\<^sup>*"
        by blast
      with e show ?thesis by (blast intro: rtrancl_into_rtrancl)
    qed
  qed
qed

lemma list_all2_map_eq: "list_all2 (\<lambda>r t. h t = r) rs ts \<Longrightarrow> map h ts = rs"
  by (induction rule: list_all2_induct) auto

lemma build_forest:
  assumes ok: "mapOK M L" and d: "distinct (map fst L)" and ac: "acyclic (parentEdges L)"
    and cl: "closedLinks L"
  shows "\<exists>n ts. (\<forall>n' \<ge> n. map (buildNode n' M) (rootsOf L) = map Some ts)
           \<and> map node_url ts = rootsOf L
           \<and> distinct (concat (map node_urls ts))
           \<and> set (concat (map node_urls ts)) = fst ` set L"
proof -
  let ?E = "parentEdges L"
  have sv: "single_valued (?E\<inverse>)" using d by (rule single_valued_parent)
  have "\<forall>r \<in> set (rootsOf L). \<exists>nt. buildNode (fst nt) M r = Some (snd nt)"
  proof
    fix r assume "r \<in> set (rootsOf L)"
    then have "r \<in> fst ` set L" using rootsOf_subset [of L] by blast
    from buildNode_exists [OF ok ac this] obtain n t where "buildNode n M r = Some t" by blast
    then show "\<exists>nt. buildNode (fst nt) M r = Some (snd nt)"
      by (intro exI [of _ "(n, t)"]) simp
  qed
  then have "\<exists>f. \<forall>r \<in> set (rootsOf L). buildNode (fst (f r)) M r = Some (snd (f r))"
    by (rule bchoice)
  then obtain f where f: "\<forall>r \<in> set (rootsOf L). buildNode (fst (f r)) M r = Some (snd (f r))"
    by blast
  let ?N = "sum_list (map (\<lambda>r. fst (f r)) (rootsOf L))"
  let ?ts = "map (\<lambda>r. snd (f r)) (rootsOf L)"
  have built: "\<And>n'. ?N \<le> n' \<Longrightarrow> map (buildNode n' M) (rootsOf L) = map Some ?ts"
  proof -
    fix n' assume n': "?N \<le> n'"
    show "map (buildNode n' M) (rootsOf L) = map Some ?ts"
    proof (simp, intro ballI)
      fix r assume r: "r \<in> set (rootsOf L)"
      then have "fst (f r) \<le> ?N"
        by (intro member_le_sum_list) auto
      with f r n' show "buildNode n' M r = Some (snd (f r))"
        by (meson buildNode_le le_trans)
    qed
  qed
  have "list_all2 (\<lambda>r t. buildNode ?N M r = Some t) (rootsOf L) ?ts"
    using built [of ?N] by (intro map_Some_list_all2) simp
  then have all2: "list_all2 (\<lambda>r t. node_url t = r \<and> distinct (node_urls t)
                              \<and> set (node_urls t) = ?E\<^sup>* `` {r}) (rootsOf L) ?ts"
  proof (rule list.rel_mono_strong)
    fix r t' assume r: "r \<in> set (rootsOf L)" and b: "buildNode ?N M r = Some t'"
    from r have "r \<in> fst ` set L" using rootsOf_subset [of L] by blast
    with buildNode_distinct [OF ok d ac, of r ?N t'] buildNode_set [OF ok, of r ?N t'] b
    show "node_url t' = r \<and> distinct (node_urls t') \<and> set (node_urls t') = ?E\<^sup>* `` {r}"
      by blast
  qed
  have "list_all2 (\<lambda>r t. node_url t = r) (rootsOf L) ?ts"
    using all2 by (rule list.rel_mono_strong) auto
  then have urls: "map node_url ?ts = rootsOf L"
    by (rule list_all2_map_eq)
  have disj: "\<And>a b. a \<in> set (rootsOf L) \<Longrightarrow> b \<in> set (rootsOf L) \<Longrightarrow> a \<noteq> b
               \<Longrightarrow> ?E\<^sup>* `` {a} \<inter> ?E\<^sup>* `` {b} = {}"
  proof -
    fix a b assume ab: "a \<in> set (rootsOf L)" "b \<in> set (rootsOf L)" "a \<noteq> b"
    then have ba: "b \<noteq> a" by simp
    show "?E\<^sup>* `` {a} \<inter> ?E\<^sup>* `` {b} = {}"
      using sv root_not_descendant [OF d ab(2) ab(3)] root_not_descendant [OF d ab(1) ba]
      by (rule disjoint_descendants)
  qed
  have "list_all2 (\<lambda>r t. distinct (node_urls t) \<and> set (node_urls t) = ?E\<^sup>* `` {r}) (rootsOf L) ?ts"
    using all2 by (rule list.rel_mono_strong) auto
  then have cc: "distinct (concat (map node_urls ?ts))
            \<and> set (concat (map node_urls ?ts)) = (\<Union>r \<in> set (rootsOf L). ?E\<^sup>* `` {r})"
    using distinct_rootsOf [OF d] disj by (rule distinct_concat_list_all2)
  have cover: "(\<Union>r \<in> set (rootsOf L). ?E\<^sup>* `` {r}) = fst ` set L"
  proof
    show "(\<Union>r \<in> set (rootsOf L). ?E\<^sup>* `` {r}) \<subseteq> fst ` set L"
      using descendants_in_links [of _ _ L] rootsOf_subset [of L] by blast
    show "fst ` set L \<subseteq> (\<Union>r \<in> set (rootsOf L). ?E\<^sup>* `` {r})"
      using every_page_under_a_root [OF ac cl] by blast
  qed
  from built urls cc cover show ?thesis by (intro exI [of _ ?N] exI [of _ ?ts]) simp
qed

subsection \<open>From the records to the page map\<close>

lemma cleanPages_pairs:
  "map (\<lambda>c. (pn_url c, g (pn_parentUrl c))) (cleanPages P i ps)
     = map (\<lambda>p. (page_url p, g (page_parentUrl p))) ps"
  by (induction ps arbitrary: i) (simp_all add: cleanPage_def)

lemma cleanPages_url_set: "pn_url ` set (cleanPages P i ps) = page_url ` set ps"
  using cleanPages_urls [of P i ps] by (metis set_map)

lemma links_cleanPages:
  "pageLinks (cleanPages P i recs) = map (\<lambda>p. (page_url p, attachedParent recs p)) recs"
  unfolding pageLinks_def attachedParent_def cleanPages_url_set
  by (rule cleanPages_pairs)

lemma fst_links: "map fst (pageLinks cps) = map pn_url cps"
  by (simp add: pageLinks_def comp_def)

lemma rootsOf_links: "rootsOf (pageLinks (cleanPages P i recs)) = map page_url (topLevel recs)"
  by (simp add: links_cleanPages rootsOf_def topLevel_def filter_map comp_def)

lemma fold_attach_final:
  "fold (attach r) cps (fold setPage cps Map.empty, []) = (finalMap cps, rootsOf (pageLinks cps))"
  by (simp add: fold_attach dom_fold_setPage finalMap_def rootsOf_def pageLinks_def filter_map comp_def)

lemma finalMap_entry:
  assumes "finalMap cps k = Some n"
  shows "pn_url n = k
         \<and> pn_children n = childrenOf (pageLinks cps) k"
proof -
  from assms obtain n0 where n0: "fold setPage cps Map.empty k = Some n0"
    and n: "n = addChildren (\<lambda>c. effParent (pn_url ` set cps) (pn_parentUrl c)) cps k n0"
    by (auto simp: finalMap_def)
  have "pn_url n0 = k \<and> pn_children n0 = []"
    using fold_setPage_entries [of Map.empty cps k n0] n0 by simp
  with n show ?thesis
    by (simp add: addChildren_def childrenOf_def pageLinks_def filter_map comp_def)
qed

lemma dom_finalMap: "dom (finalMap cps) = pn_url ` set cps"
  using dom_fold_setPage [of cps Map.empty] by (auto simp: finalMap_def dom_def)

lemma mapOK_finalMap: "mapOK (finalMap cps) (pageLinks cps)"
  unfolding mapOK_def
proof
  fix u assume "u \<in> fst ` set (pageLinks cps)"
  then have "u \<in> dom (finalMap cps)"
    unfolding dom_finalMap using fst_links [of cps] by (metis set_map)
  then obtain n where "finalMap cps u = Some n" by auto
  with finalMap_entry [of cps u n]
  show "\<exists>n. finalMap cps u = Some n \<and> pn_url n = u \<and> pn_children n = childrenOf (pageLinks cps) u"
    by blast
qed

lemma effParent_Some: "effParent D par = Some k \<Longrightarrow> par = Some k \<and> k \<in> D"
  by (auto simp: effParent_def split: option.splits if_splits)

lemma closedLinks_links: "closedLinks (pageLinks cps)"
  unfolding closedLinks_def
proof (intro allI impI)
  fix u k assume "(u, Some k) \<in> set (pageLinks cps)"
  then obtain c where "c \<in> set cps" "effParent (pn_url ` set cps) (pn_parentUrl c) = Some k"
    by (auto simp: pageLinks_def)
  then have "k \<in> pn_url ` set cps" by (blast dest: effParent_Some)
  then show "k \<in> fst ` set (pageLinks cps)"
    using fst_links [of cps] by (metis set_map)
qed

lemma parentEdges_links:
  "parentEdges (pageLinks (cleanPages P i recs)) \<subseteq> (parentRefs recs)\<inverse>"
proof
  fix e assume e: "e \<in> parentEdges (pageLinks (cleanPages P i recs))"
  then obtain k u where ku: "e = (k, u)" "(u, Some k) \<in> set (pageLinks (cleanPages P i recs))"
    by (auto simp: parentEdges_def)
  then obtain p where p: "p \<in> set recs" "u = page_url p" "attachedParent recs p = Some k"
    by (auto simp: links_cleanPages)
  then have "page_parentUrl p = Some k"
    by (auto simp: attachedParent_def dest: effParent_Some)
  with p have "(u, k) \<in> parentRefs recs"
    unfolding parentRefs_def by blast
  with ku show "e \<in> (parentRefs recs)\<inverse>" by simp
qed

lemma acyclic_links:
  "acyclic (parentRefs recs) \<Longrightarrow> acyclic (parentEdges (pageLinks (cleanPages P i recs)))"
  using parentEdges_links [of P i recs] acyclic_converse [of "parentRefs recs"]
  by (blast intro: acyclic_subset)

lemma buildSitemapStructure_nonempty:
  assumes "recs \<noteq> []"
  shows "buildSitemapStructure P n (Some recs) =
     (let cps = cleanPages P 0 recs;
          rootPage = (case find (isHomePage P) cps of Some r \<Rightarrow> r | None \<Rightarrow> hd cps);
          rootNodes0 = map page_url (topLevel recs);
          rootNodes = (if rootNodes0 = [] then [pn_url (hd cps)] else rootNodes0)
      in if length rootNodes = 1 then buildNode n (finalMap cps) (hd rootNodes)
         else (case those (map (buildNode n (finalMap cps)) rootNodes) of
                 None \<Rightarrow> None
               | Some cs \<Rightarrow>
                   Some (SitemapNode (Str ''root'')
                           (orElse (pn_url rootPage) (orElse (pn_url (hd cps)) []))
                           ''Root'' 0 ''ok'' (Some cs))))"
proof -
  from assms obtain p0 ps where p: "recs = p0 # ps" by (cases recs) auto
  have "fold (attach r) (cleanPages P 0 (p0 # ps)) (fold setPage (cleanPages P 0 (p0 # ps)) Map.empty, [])
        = (finalMap (cleanPages P 0 (p0 # ps)), map page_url (topLevel (p0 # ps)))" for r
    by (simp only: fold_attach_final rootsOf_links)
  then show ?thesis
    unfolding p buildSitemapStructure_def by (simp only: Let_def list.case option.case prod.case)
qed

lemma kids_emptyRoot: "kids emptyRoot = []"
  by (simp add: kids_def emptyRoot_def)

lemma fold_setPage_other: "k \<notin> pn_url ` set cps \<Longrightarrow> fold setPage cps m k = m k"
  by (induction cps arbitrary: m) (auto simp: setPage_def)

lemma fold_setPage_distinct:
  "distinct (map pn_url cps) \<Longrightarrow> c \<in> set cps
   \<Longrightarrow> fold setPage cps m (pn_url c) = Some (c\<lparr>pn_children := []\<rparr>)"
proof (induction cps arbitrary: m)
  case Nil
  then show ?case by simp
next
  case (Cons a cps)
  show ?case
  proof (cases "c = a")
    case True
    with Cons.prems(1) have "pn_url c \<notin> pn_url ` set cps" by auto
    then have "fold setPage cps (setPage a m) (pn_url c) = setPage a m (pn_url c)"
      by (rule fold_setPage_other)
    moreover have "setPage a m (pn_url a) = Some (a\<lparr>pn_children := []\<rparr>)"
      by (simp add: setPage_def)
    ultimately show ?thesis using True by simp
  next
    case False
    with Cons show ?thesis by auto
  qed
qed

lemma acyclic_demoRecords: "acyclic (parentRefs demoRecords)"
  by (rule acyclicI_order [where f = length]) (auto simp: parentRefs_def demoRecords_def)

lemma build_forest_recs:
  assumes d: "distinct (map page_url recs)" and ac: "acyclic (parentRefs recs)"
  shows "\<exists>n ts. (\<forall>n' \<ge> n. map (buildNode n' (finalMap (cleanPages P 0 recs))) (map page_url (topLevel recs))
                        = map Some ts)
           \<and> map node_url ts = map page_url (topLevel recs)
           \<and> distinct (concat (map node_urls ts))
           \<and> set (concat (map node_urls ts)) = set (map page_url recs)"
proof -
  let ?cps = "cleanPages P 0 recs"
  have d': "distinct (map fst (pageLinks ?cps))"
    using d by (simp add: fst_links cleanPages_urls)
  have s: "fst ` set (pageLinks ?cps) = set (map page_url recs)"
    using fst_links [of ?cps] cleanPages_urls [of P 0 recs] by (metis set_map)
  show ?thesis
    using build_forest [OF mapOK_finalMap d' acyclic_links [OF ac] closedLinks_links]
    unfolding rootsOf_links s .
qed

lemma buildSitemapStructure_forest:
  assumes d: "distinct (map page_url recs)" and ac: "acyclic (parentRefs recs)"
  shows "\<exists>fuel t. (\<forall>n \<ge> fuel. buildSitemapStructure P n (Some recs) = Some t)
           \<and> distinct (concat (map node_urls (forest recs t)))
           \<and> set (concat (map node_urls (forest recs t))) = set (map page_url recs)
           \<and> map node_url (forest recs t) = map page_url (topLevel recs)"
proof (cases "recs = []")
  case True
  then show ?thesis
    by (intro exI [of _ 0] exI [of _ emptyRoot])
       (simp add: buildSitemapStructure_def forest_def topLevel_def kids_emptyRoot)
next
  case False
  let ?M = "finalMap (cleanPages P 0 recs)"
  let ?R = "map page_url (topLevel recs)"
  from build_forest_recs [OF d ac, of P] obtain N ts where
    built: "\<forall>n' \<ge> N. map (buildNode n' ?M) ?R = map Some ts"
    and urls: "map node_url ts = ?R"
    and dist: "distinct (concat (map node_urls ts))"
    and cover: "set (concat (map node_urls ts)) = set (map page_url recs)"
    by blast
  from False cover have "ts \<noteq> []" by auto
  with urls have R: "?R \<noteq> []" by auto
  show ?thesis
  proof (cases "length (topLevel recs) = 1")
    case True
    then obtain p where p: "topLevel recs = [p]"
      by (cases "topLevel recs") auto
    with urls obtain t where t: "ts = [t]" by (cases ts) auto
    have "\<forall>n \<ge> N. buildSitemapStructure P n (Some recs) = Some t"
      using built by (simp add: buildSitemapStructure_nonempty [OF False] p t)
    with dist cover urls show ?thesis
      by (intro exI [of _ N] exI [of _ t]) (simp add: forest_def p t)
  next
    case False
    let ?t = "SitemapNode (Str ''root'')
                (orElse (pn_url (case find (isHomePage P) (cleanPages P 0 recs) of
                                   Some r \<Rightarrow> r | None \<Rightarrow> hd (cleanPages P 0 recs)))
                   (orElse (pn_url (hd (cleanPages P 0 recs))) []))
                ''Root'' 0 ''ok'' (Some ts)"
    have "\<forall>n \<ge> N. buildSitemapStructure P n (Some recs) = Some ?t"
      using built R False
      by (simp add: buildSitemapStructure_nonempty [OF \<open>recs \<noteq> []\<close>] Let_def those_map_Some)
    moreover have "forest recs ?t = ts"
      using False by (simp add: forest_def kids_def)
    ultimately show ?thesis
      using dist cover urls by (intro exI [of _ N] exI [of _ ?t]) simp
  qed
qed

subsection \<open>No cycle lies under a top-level page\<close>

text \<open>
  The parent of a page on a cycle is on the cycle. A top-level page has no parent, so the pages
  under it are free of cycles, whatever the rest of the input looks like.
\<close>

lemma cycle_parent:
  assumes sv: "single_valued (E\<inverse>)" and e: "(k, x) \<in> E" and c: "(x, x) \<in> E\<^sup>+"
  shows "(k, k) \<in> E\<^sup>+"
proof -
  from c obtain z where z: "(x, z) \<in> E\<^sup>*" "(z, x) \<in> E"
    by (blast dest: tranclD2)
  from sv z(2) e have "z = k" by (auto dest: single_valuedD)
  with z(1) e show ?thesis by (blast intro: rtrancl_into_trancl2)
qed

lemma cycle_ancestor:
  assumes sv: "single_valued (E\<inverse>)"
  shows "(r, x) \<in> E\<^sup>* \<Longrightarrow> (x, x) \<in> E\<^sup>+ \<Longrightarrow> (r, r) \<in> E\<^sup>+"
proof (induction rule: rtrancl_induct)
  case base
  then show ?case .
next
  case (step y z)
  show ?case
    by (rule step.IH) (rule cycle_parent [OF sv step.hyps(2) step.prems])
qed

lemma root_no_parent:
  assumes d: "distinct (map fst L)" and r: "r \<in> set (rootsOf L)"
  shows "(z, r) \<notin> parentEdges L"
proof
  assume "(z, r) \<in> parentEdges L"
  then have "(r, Some z) \<in> set L" by (simp add: parentEdges_def)
  moreover from r have "(r, None) \<in> set L" by (auto simp: rootsOf_def)
  ultimately show False using d by (auto dest: eq_key_imp_eq_value)
qed

lemma parentEdges_underRoots: "parentEdges (underRoots L) \<subseteq> parentEdges L"
  by (auto simp: parentEdges_def underRoots_def)

lemma fst_underRoots:
  "x \<in> fst ` set (underRoots L)
   \<longleftrightarrow> x \<in> fst ` set L \<and> (\<exists>r \<in> set (rootsOf L). (r, x) \<in> (parentEdges L)\<^sup>*)"
  by (auto simp: underRoots_def)

lemma acyclic_underRoots:
  assumes d: "distinct (map fst L)"
  shows "acyclic (parentEdges (underRoots L))"
proof (rule acyclicI, rule allI, rule notI)
  fix x assume c: "(x, x) \<in> (parentEdges (underRoots L))\<^sup>+"
  have sv: "single_valued ((parentEdges L)\<inverse>)" using d by (rule single_valued_parent)
  from c obtain z where "(z, x) \<in> parentEdges (underRoots L)"
    by (blast dest: tranclD2)
  then have "x \<in> fst ` set (underRoots L)"
    by (force simp: parentEdges_def)
  then obtain r where r: "r \<in> set (rootsOf L)" "(r, x) \<in> (parentEdges L)\<^sup>*"
    unfolding fst_underRoots by blast
  from c have "(x, x) \<in> (parentEdges L)\<^sup>+"
    using trancl_mono [OF _ parentEdges_underRoots] by blast
  with cycle_ancestor [OF sv r(2)] have "(r, r) \<in> (parentEdges L)\<^sup>+" by blast
  then obtain z' where "(z', r) \<in> parentEdges L" by (blast dest: tranclD2)
  with root_no_parent [OF d r(1)] show False by blast
qed

lemma distinct_underRoots: "distinct (map fst L) \<Longrightarrow> distinct (map fst (underRoots L))"
  by (simp add: underRoots_def distinct_map_filter)

lemma rootsOf_underRoots: "rootsOf (underRoots L) = rootsOf L"
proof -
  have "\<And>l. l \<in> set L \<Longrightarrow> snd l = None
        \<Longrightarrow> (\<exists>r \<in> set (rootsOf L). (r, fst l) \<in> (parentEdges L)\<^sup>*)"
    by (force simp: rootsOf_def)
  then have "filter (\<lambda>l. snd l = None) (underRoots L) = filter (\<lambda>l. snd l = None) L"
    unfolding underRoots_def filter_filter by (intro filter_cong) auto
  then show ?thesis by (simp add: rootsOf_def)
qed

lemma childrenOf_underRoots:
  assumes x: "\<exists>r \<in> set (rootsOf L). (r, x) \<in> (parentEdges L)\<^sup>*"
  shows "childrenOf (underRoots L) x = childrenOf L x"
proof -
  have "\<And>l. l \<in> set L \<Longrightarrow> snd l = Some x
        \<Longrightarrow> (\<exists>r \<in> set (rootsOf L). (r, fst l) \<in> (parentEdges L)\<^sup>*)"
  proof -
    fix l assume "l \<in> set L" "snd l = Some x"
    then have "(fst l, Some x) \<in> set L"
      by (metis prod.collapse)
    then have "(x, fst l) \<in> parentEdges L"
      by (simp add: parentEdges_def)
    with x show "\<exists>r \<in> set (rootsOf L). (r, fst l) \<in> (parentEdges L)\<^sup>*"
      by (blast intro: rtrancl_into_rtrancl)
  qed
  then have "filter (\<lambda>l. snd l = Some x) (underRoots L) = filter (\<lambda>l. snd l = Some x) L"
    unfolding underRoots_def filter_filter by (intro filter_cong) auto
  then show ?thesis by (simp add: childrenOf_def)
qed

lemma closedLinks_underRoots:
  assumes d: "distinct (map fst L)" and cl: "closedLinks L"
  shows "closedLinks (underRoots L)"
  unfolding closedLinks_def
proof (intro allI impI)
  fix u k assume uk: "(u, Some k) \<in> set (underRoots L)"
  have sv: "single_valued ((parentEdges L)\<inverse>)" using d by (rule single_valued_parent)
  from uk have inL: "(u, Some k) \<in> set L" by (simp add: underRoots_def)
  then have e: "(k, u) \<in> parentEdges L" by (simp add: parentEdges_def)
  from uk obtain r where r: "r \<in> set (rootsOf L)" "(r, u) \<in> (parentEdges L)\<^sup>*"
    by (auto simp: underRoots_def)
  from root_no_parent [OF d r(1)] e have "r \<noteq> u" by blast
  with r(2) have "(r, u) \<in> (parentEdges L)\<^sup>+" by (simp add: rtrancl_eq_or_trancl)
  then obtain z where z: "(r, z) \<in> (parentEdges L)\<^sup>*" "(z, u) \<in> parentEdges L"
    by (blast dest: tranclD2)
  from sv z(2) e have "z = k" by (auto dest: single_valuedD)
  with z(1) r(1) have "\<exists>r \<in> set (rootsOf L). (r, k) \<in> (parentEdges L)\<^sup>*" by blast
  moreover from cl inL have "k \<in> fst ` set L" unfolding closedLinks_def by blast
  ultimately show "k \<in> fst ` set (underRoots L)"
    unfolding fst_underRoots by blast
qed

lemma mapOK_underRoots:
  assumes ok: "mapOK M L"
  shows "mapOK M (underRoots L)"
  unfolding mapOK_def
proof
  fix u assume "u \<in> fst ` set (underRoots L)"
  then have u: "u \<in> fst ` set L" "\<exists>r \<in> set (rootsOf L). (r, u) \<in> (parentEdges L)\<^sup>*"
    unfolding fst_underRoots by blast+
  from ok u(1) obtain n where "M u = Some n" "pn_url n = u" "pn_children n = childrenOf L u"
    unfolding mapOK_def by blast
  then show "\<exists>n. M u = Some n \<and> pn_url n = u \<and> pn_children n = childrenOf (underRoots L) u"
    using childrenOf_underRoots [OF u(2)] by simp
qed

subsection \<open>A bound on the nesting\<close>

text \<open>
  Below a page that lies on no cycle, the pages on a path downwards are pairwise different, so
  the nesting is no deeper than the number of pages.
\<close>

lemma buildNode_within:
  assumes ok: "mapOK M L" and ac: "acyclic (parentEdges L)"
  shows "x \<in> fst ` set L \<Longrightarrow> A \<subseteq> fst ` set L \<Longrightarrow> A \<subseteq> {a. (a, x) \<in> (parentEdges L)\<^sup>+}
         \<Longrightarrow> card (fst ` set L) \<le> card A + n \<Longrightarrow> \<exists>t. buildNode n M x = Some t"
proof (induction n arbitrary: x A)
  case 0
  have "finite (fst ` set L)" by simp
  with 0 have "A = fst ` set L" by (simp add: card_seteq)
  with 0 have "(x, x) \<in> (parentEdges L)\<^sup>+" by blast
  with ac show ?case by (simp add: acyclic_def)
next
  case (Suc n)
  let ?E = "parentEdges L"
  from ok Suc.prems(1) obtain pn0 where pn0: "M x = Some pn0" "pn_url pn0 = x"
      "pn_children pn0 = childrenOf L x"
    unfolding mapOK_def by blast
  have fin: "finite A" using Suc.prems(2) by (rule finite_subset) simp
  have xA: "x \<notin> A"
  proof
    assume "x \<in> A"
    with Suc.prems(3) have "(x, x) \<in> ?E\<^sup>+" by blast
    with ac show False by (simp add: acyclic_def)
  qed
  have "\<forall>c \<in> set (childrenOf L x). \<exists>t. buildNode n M c = Some t"
  proof
    fix c assume c: "c \<in> set (childrenOf L x)"
    then have e: "(x, c) \<in> ?E" using parentEdges_Image [of L x] by auto
    from c have cV: "c \<in> fst ` set L" using childrenOf_subset [of L x] by blast
    have s1: "insert x A \<subseteq> fst ` set L" using Suc.prems(1,2) by blast
    have s2: "insert x A \<subseteq> {a. (a, c) \<in> ?E\<^sup>+}"
      using Suc.prems(3) e by (auto intro: trancl_into_trancl)
    have "card (fst ` set L) \<le> card (insert x A) + n"
      using Suc.prems(4) fin xA by simp
    from Suc.IH [OF cV s1 s2 this] show "\<exists>t. buildNode n M c = Some t" .
  qed
  then have "\<exists>f. \<forall>c \<in> set (childrenOf L x). buildNode n M c = Some (f c)"
    by (rule bchoice)
  then obtain f where f: "\<forall>c \<in> set (childrenOf L x). buildNode n M c = Some (f c)"
    by blast
  then have "map (buildNode n M) (childrenOf L x) = map Some (map f (childrenOf L x))"
    by simp
  with pn0 have "buildNode (Suc n) M x
        = Some (SitemapNode (pn_id pn0) (pn_url pn0) (orElse (pn_title pn0) (pn_url pn0))
                 (pn_depth pn0) (orElse (pn_status pn0) ''ok'')
                 (if map f (childrenOf L x) = [] then None
                  else Some (map f (childrenOf L x))))"
    unfolding buildNode_Suc_Some
    by (intro exI [of _ pn0] exI [of _ "map f (childrenOf L x)"]) simp
  then show ?case by blast
qed

lemma buildNode_roots_within:
  assumes ok: "mapOK M L" and d: "distinct (map fst L)" and cl: "closedLinks L"
    and r: "r \<in> set (rootsOf L)" and n: "length L \<le> n"
  shows "\<exists>t. buildNode n M r = Some t"
proof -
  let ?U = "underRoots L"
  have "r \<in> set (rootsOf ?U)" using r by (simp add: rootsOf_underRoots)
  then have rU: "r \<in> fst ` set ?U" using rootsOf_subset [of ?U] by blast
  have "card (fst ` set ?U) \<le> length ?U"
    by (metis card_length length_map set_map)
  also have "\<dots> \<le> length L" by (simp add: underRoots_def)
  finally have "card (fst ` set ?U) \<le> card ({} :: string set) + n" using n by simp
  with buildNode_within [OF mapOK_underRoots [OF ok] acyclic_underRoots [OF d] rU, of "{}" n]
  show ?thesis by simp
qed

lemma build_roots_within:
  assumes ok: "mapOK M L" and d: "distinct (map fst L)" and cl: "closedLinks L"
  shows "\<exists>ts. \<forall>n \<ge> length L. map (buildNode n M) (rootsOf L) = map Some ts"
proof -
  have "\<forall>r \<in> set (rootsOf L). \<exists>t. buildNode (length L) M r = Some t"
    using buildNode_roots_within [OF ok d cl] by blast
  then have "\<exists>f. \<forall>r \<in> set (rootsOf L). buildNode (length L) M r = Some (f r)"
    by (rule bchoice)
  then obtain f where f: "\<forall>r \<in> set (rootsOf L). buildNode (length L) M r = Some (f r)"
    by blast
  have "\<forall>n \<ge> length L. map (buildNode n M) (rootsOf L) = map Some (map f (rootsOf L))"
  proof (intro allI impI)
    fix n assume "length L \<le> n"
    with f have "\<forall>r \<in> set (rootsOf L). buildNode n M r = Some (f r)"
      by (blast intro: buildNode_le)
    then show "map (buildNode n M) (rootsOf L) = map Some (map f (rootsOf L))" by simp
  qed
  then show ?thesis by blast
qed

subsection \<open>The nodes of the pages\<close>

lemma nodeOf_iff:
  "nodeOf t cps c \<longleftrightarrow>
     node_id t = pn_id c \<and> node_url t = pn_url c \<and> node_title t = orElse (pn_title c) (pn_url c)
     \<and> node_depth t = pn_depth c \<and> node_status t = ''ok'' \<and> node_children t \<noteq> Some []
     \<and> list_all2 (\<lambda>x t. nodeOf t cps x) (attachedTo cps (Some (pn_url c))) (kids t)"
  by (cases t) (auto simp: kids_def list_all2_map2 split: option.splits)

lemma nodeOf_url: "nodeOf t cps c \<Longrightarrow> node_url t = pn_url c"
  by (cases t) simp

text \<open>The description fixes the node: two nodes of the same page are equal.\<close>

lemma list_all2_unique:
  assumes "list_all2 Q xs ys" and "list_all2 Q xs ys'"
    and "\<And>x y y'. y \<in> set ys \<Longrightarrow> Q x y \<Longrightarrow> Q x y' \<Longrightarrow> y = y'"
  shows "ys = ys'"
  using assms
proof (induction arbitrary: ys' rule: list_all2_induct)
  case Nil
  then show ?case by simp
next
  case (Cons x xs y ys)
  from Cons.prems(1) obtain z zs where z: "ys' = z # zs" "Q x z" "list_all2 Q xs zs"
    by (auto simp: list_all2_Cons1)
  from Cons.prems(2) [of y x z] Cons.hyps(1) z(2) have "y = z" by simp
  moreover have "ys = zs"
    using z(3) Cons.prems(2) by (intro Cons.IH) auto
  ultimately show ?case using z(1) by simp
qed

lemma nodeOf_unique: "nodeOf t cps c \<Longrightarrow> nodeOf t' cps c \<Longrightarrow> t = t'"
proof (induction t arbitrary: t' c)
  case (SitemapNode i u tt d s cs)
  let ?t = "SitemapNode i u tt d s cs"
  let ?ch = "attachedTo cps (Some (pn_url c))"
  from SitemapNode.prems(1) have a: "node_id ?t = pn_id c" "node_url ?t = pn_url c"
    "node_title ?t = orElse (pn_title c) (pn_url c)" "node_depth ?t = pn_depth c"
    "node_status ?t = ''ok''" "node_children ?t \<noteq> Some []"
    "list_all2 (\<lambda>x t. nodeOf t cps x) ?ch (kids ?t)"
    by (subst (asm) nodeOf_iff, blast)+
  from SitemapNode.prems(2) have b: "node_id t' = pn_id c" "node_url t' = pn_url c"
    "node_title t' = orElse (pn_title c) (pn_url c)" "node_depth t' = pn_depth c"
    "node_status t' = ''ok''" "node_children t' \<noteq> Some []"
    "list_all2 (\<lambda>x t. nodeOf t cps x) ?ch (kids t')"
    by (subst (asm) nodeOf_iff, blast)+
  have "kids ?t = kids t'"
    using a(7) b(7)
  proof (rule list_all2_unique)
    fix x y y' assume y: "y \<in> set (kids ?t)" and "nodeOf y cps x" "nodeOf y' cps x"
    from y obtain ks where "cs = Some ks" "y \<in> set ks"
      by (auto simp: kids_def split: option.splits)
    then show "y = y'"
      using SitemapNode.IH [of ks y x y'] \<open>nodeOf y cps x\<close> \<open>nodeOf y' cps x\<close> by simp
  qed
  with a(6) b(6) have "node_children ?t = node_children t'"
    by (auto simp: kids_def split: option.splits)
  with a b show ?case
    by (intro sitemap_node.expand) simp
qed

lemma finalMap_distinct:
  assumes "distinct (map pn_url cps)" and "c \<in> set cps"
  shows "finalMap cps (pn_url c)
         = Some (c\<lparr>pn_children := map pn_url (attachedTo cps (Some (pn_url c)))\<rparr>)"
  using fold_setPage_distinct [OF assms, of Map.empty]
  by (simp add: finalMap_def addChildren_def attachedTo_def)

lemma attachedTo_subset: "set (attachedTo cps k) \<subseteq> set cps"
  by (auto simp: attachedTo_def)

lemma attachedTo_None_urls: "map pn_url (attachedTo cps None) = rootsOf (pageLinks cps)"
  by (simp add: attachedTo_def rootsOf_def pageLinks_def filter_map comp_def)

lemma cleanPages_status: "c \<in> set (cleanPages P i ps) \<Longrightarrow> pn_status c = ''ok''"
  by (induction ps arbitrary: i) (auto simp: cleanPage_def)

lemma list_all2_map_eq2: "list_all2 (\<lambda>c t. h t = g c) cs ts \<Longrightarrow> map h ts = map g cs"
  by (induction rule: list_all2_induct) auto

lemma buildNode_nodeOf:
  assumes d: "distinct (map pn_url cps)" and st: "\<forall>c \<in> set cps. pn_status c = ''ok''"
  shows "c \<in> set cps \<Longrightarrow> buildNode n (finalMap cps) (pn_url c) = Some t \<Longrightarrow> nodeOf t cps c"
proof (induction n arbitrary: c t)
  case 0
  then show ?case by simp
next
  case (Suc n)
  let ?ch = "attachedTo cps (Some (pn_url c))"
  from Suc.prems(2) finalMap_distinct [OF d Suc.prems(1)] obtain ts where
    ts: "map (buildNode n (finalMap cps)) (map pn_url ?ch) = map Some ts"
    and t: "t = SitemapNode (pn_id c) (pn_url c) (orElse (pn_title c) (pn_url c))
                 (pn_depth c) (orElse (pn_status c) ''ok'') (if ts = [] then None else Some ts)"
    unfolding buildNode_Suc_Some by auto
  from ts have "map (\<lambda>x. buildNode n (finalMap cps) (pn_url x)) ?ch = map Some ts"
    by (simp add: comp_def)
  then have "list_all2 (\<lambda>x t. buildNode n (finalMap cps) (pn_url x) = Some t) ?ch ts"
    by (rule map_Some_list_all2)
  then have all2: "list_all2 (\<lambda>x t. nodeOf t cps x) ?ch ts"
  proof (rule list.rel_mono_strong)
    fix x t' assume "x \<in> set ?ch" and "buildNode n (finalMap cps) (pn_url x) = Some t'"
    with Suc.IH [of x t'] attachedTo_subset [of cps] show "nodeOf t' cps x" by blast
  qed
  have k: "kids t = ts" unfolding t by (rule kids_SitemapNode)
  from st Suc.prems(1) have "pn_status c = ''ok''" by blast
  with all2 k show ?case
    by (subst nodeOf_iff) (simp add: t orElse_def)
qed

lemma top_nodes:
  assumes d: "distinct (map page_url recs)"
  shows "\<exists>ts. (\<forall>n \<ge> length recs.
                 map (buildNode n (finalMap (cleanPages P 0 recs))) (map page_url (topLevel recs))
                   = map Some ts)
            \<and> list_all2 (\<lambda>c t. nodeOf t (cleanPages P 0 recs) c)
                 (attachedTo (cleanPages P 0 recs) None) ts
            \<and> map node_url ts = map page_url (topLevel recs)"
proof -
  let ?cps = "cleanPages P 0 recs"
  let ?M = "finalMap ?cps"
  let ?L = "pageLinks ?cps"
  have dc: "distinct (map pn_url ?cps)"
    using d by (simp add: cleanPages_urls)
  then have d': "distinct (map fst ?L)"
    by (simp add: fst_links)
  have len: "length ?L = length recs"
    using arg_cong [OF cleanPages_urls [of P 0 recs], of length] by (simp add: pageLinks_def)
  from build_roots_within [OF mapOK_finalMap d' closedLinks_links]
  obtain ts where built: "\<forall>n \<ge> length recs. map (buildNode n ?M) (map page_url (topLevel recs)) = map Some ts"
    unfolding len rootsOf_links by blast
  have r: "map pn_url (attachedTo ?cps None) = map page_url (topLevel recs)"
    by (simp add: attachedTo_None_urls rootsOf_links)
  from built have "map (buildNode (length recs) ?M) (map pn_url (attachedTo ?cps None)) = map Some ts"
    unfolding r by simp
  then have "map (\<lambda>c. buildNode (length recs) ?M (pn_url c)) (attachedTo ?cps None) = map Some ts"
    by (simp add: comp_def)
  then have "list_all2 (\<lambda>c t. buildNode (length recs) ?M (pn_url c) = Some t) (attachedTo ?cps None) ts"
    by (rule map_Some_list_all2)
  then have all2: "list_all2 (\<lambda>c t. nodeOf t ?cps c) (attachedTo ?cps None) ts"
  proof (rule list.rel_mono_strong)
    fix c t assume c: "c \<in> set (attachedTo ?cps None)"
      and b: "buildNode (length recs) ?M (pn_url c) = Some t"
    from c have "c \<in> set ?cps" using attachedTo_subset [of ?cps None] by blast
    moreover have "\<forall>c \<in> set ?cps. pn_status c = ''ok''"
      by (blast intro: cleanPages_status)
    ultimately show "nodeOf t ?cps c"
      using b by (intro buildNode_nodeOf [OF dc])
  qed
  then have "list_all2 (\<lambda>c t. node_url t = pn_url c) (attachedTo ?cps None) ts"
    by (rule list.rel_mono_strong) (rule nodeOf_url)
  then have "map node_url ts = map pn_url (attachedTo ?cps None)"
    by (rule list_all2_map_eq2)
  with built all2 r show ?thesis by (intro exI [of _ ts]) simp
qed

section \<open>Facts about the crawler\<close>

text \<open>
  One turn of the loop adds at most \<open>CONCURRENCY\<close> URLs to the visited set, so the loop
  passes the cap by five URLs at most.
\<close>

lemma admitBatch_lengths:
  "admitBatch e maxDepth its vis = (vis', adm)
   \<Longrightarrow> length vis' = length vis + length adm \<and> length adm \<le> length its"
proof (induction its arbitrary: vis vis' adm)
  case Nil
  then show ?case by simp
next
  case (Cons it its)
  then show ?case
    by (fastforce split: option.splits if_splits prod.splits)
qed

lemma visited_fold_processPage:
  "visited (fold (processPage e baseUrl maxDepth) adm st) = visited st"
  by (induction adm arbitrary: st)
     (simp_all add: processPage_def Let_def split: prod.splits option.splits)

lemma crawlBatch_visited_bound:
  "length (visited (crawlBatch e baseUrl maxDepth st)) \<le> length (visited st) + CONCURRENCY"
proof -
  obtain vis' adm where a: "admitBatch e maxDepth (take CONCURRENCY (queue st)) (visited st) = (vis', adm)"
    by (cases "admitBatch e maxDepth (take CONCURRENCY (queue st)) (visited st)") auto
  from admitBatch_lengths [OF a] have "length vis' \<le> length (visited st) + CONCURRENCY"
    by simp
  with a show ?thesis
    by (simp add: crawlBatch_def visited_fold_processPage)
qed

lemma crawlLoop_visited_bound:
  "int (length (visited st)) \<le> maxPages + 5 \<Longrightarrow> 1 \<le> maxPages
   \<Longrightarrow> int (length (visited (crawlLoop e baseUrl maxDepth maxPages st))) \<le> maxPages + 5"
proof (induction e baseUrl maxDepth maxPages st rule: crawlLoop.induct)
  case (1 e baseUrl maxDepth maxPages st)
  show ?case
  proof (cases "queue st \<noteq> [] \<and> int (length (visited st)) < maxPages")
    case True
    have "int (length (visited (crawlBatch e baseUrl maxDepth st))) \<le> maxPages + 5"
      using crawlBatch_visited_bound [of e baseUrl maxDepth st] True
      by (simp add: CONCURRENCY_def)
    with "1.IH" [OF True] "1.prems" True show ?thesis
      by (subst crawlLoop.simps) simp
  next
    case False
    with "1.prems" show ?thesis
      by (subst crawlLoop.simps) auto
  qed
qed

text \<open>
  A link or a queue item that the parser rejects takes no part in the crawl.
\<close>

lemma enqueueLinks_filter:
  "enqueueLinks e baseUrl maxDepth vis u it (filter (\<lambda>l. parse e l \<noteq> None) links)
     = enqueueLinks e baseUrl maxDepth vis u it links"
proof (induction links)
  case Nil
  show ?case by simp
next
  case (Cons l links)
  show ?case
  proof (cases "parse e l")
    case None
    with Cons show ?thesis by (simp add: normalize_malformed)
  next
    case (Some y)
    with Cons show ?thesis by (simp split: option.splits)
  qed
qed

lemma admitBatch_filter:
  "admitBatch e maxDepth (filter (\<lambda>it. parse e (item_url it) \<noteq> None) its) vis
     = admitBatch e maxDepth its vis"
proof (induction its arbitrary: vis)
  case Nil
  show ?case by simp
next
  case (Cons i its)
  show ?case
  proof (cases "parse e (item_url i)")
    case None
    with Cons show ?thesis by (simp add: normalize_malformed)
  next
    case (Some y)
    with Cons show ?thesis by (simp split: option.splits)
  qed
qed

lemma enqueueLinks_parse:
  "parse e' = parse e \<Longrightarrow>
   enqueueLinks e' baseUrl maxDepth vis u it links = enqueueLinks e baseUrl maxDepth vis u it links"
  by (induction links) (auto split: option.splits)

lemma admitBatch_parse:
  "parse e' = parse e \<Longrightarrow> admitBatch e' maxDepth its vis = admitBatch e maxDepth its vis"
  by (induction its arbitrary: vis) (auto split: option.splits)

lemma parse_withoutRejectedLinks: "parse (withoutRejectedLinks e) = parse e"
  by (simp add: withoutRejectedLinks_def)

lemma processPage_withoutRejectedLinks:
  "processPage (withoutRejectedLinks e) baseUrl maxDepth ui st = processPage e baseUrl maxDepth ui st"
proof -
  obtain u it where ui: "ui = (u, it)" by (cases ui)
  have p: "parse (withoutRejectedLinks e) = parse e" by (rule parse_withoutRejectedLinks)
  show ?thesis
  proof (cases "navigate e u")
    case NavFailed
    then show ?thesis
      by (simp add: ui processPage_def crawlPage_def enqueueLinks_parse [OF p] p)
         (simp add: withoutRejectedLinks_def)
  next
    case (NavOk t ls)
    then have "navigate (withoutRejectedLinks e) u = NavOk t (filter (\<lambda>l. parse e l \<noteq> None) ls)"
      by (simp add: withoutRejectedLinks_def)
    moreover have "insertPage (withoutRejectedLinks e) = insertPage e"
      by (simp add: withoutRejectedLinks_def)
    ultimately show ?thesis
      using NavOk
      by (simp add: ui processPage_def crawlPage_def enqueueLinks_parse [OF p] p enqueueLinks_filter
          del: not_None_eq)
  qed
qed

lemma crawlBatch_withoutRejectedLinks:
  "crawlBatch (withoutRejectedLinks e) baseUrl maxDepth st = crawlBatch e baseUrl maxDepth st"
proof -
  have "processPage (withoutRejectedLinks e) baseUrl maxDepth = processPage e baseUrl maxDepth"
    by (intro ext) (rule processPage_withoutRejectedLinks)
  then show ?thesis
    by (simp add: crawlBatch_def admitBatch_parse [OF parse_withoutRejectedLinks])
qed

lemma crawlLoop_withoutRejectedLinks:
  "crawlLoop (withoutRejectedLinks e) baseUrl maxDepth maxPages st
     = crawlLoop e baseUrl maxDepth maxPages st"
proof (induction e baseUrl maxDepth maxPages st rule: crawlLoop.induct)
  case (1 e baseUrl maxDepth maxPages st)
  show ?case
  proof (cases "queue st \<noteq> [] \<and> int (length (visited st)) < maxPages")
    case True
    with "1.IH" show ?thesis
      by (subst (1 2) crawlLoop.simps) (simp add: crawlBatch_withoutRejectedLinks)
  next
    case False
    then show ?thesis by (subst (1 2) crawlLoop.simps) auto
  qed
qed

lemma crawlWebsite_withoutRejectedLinks:
  "crawlWebsite (withoutRejectedLinks e) domain maxDepth maxPages
     = crawlWebsite e domain maxDepth maxPages"
  by (simp add: crawlWebsite_def crawlLoop_withoutRejectedLinks parse_withoutRejectedLinks Let_def
      split: option.splits)

section \<open>Results\<close>

subsection \<open>The builder on an empty input\<close>

text \<open>
  C10. Called with a missing or an empty record list, \<^verbatim>\<open>buildSitemapStructure\<close> does not
  fail: whatever the nesting bound, it returns the fixed root with id \<^verbatim>\<open>root\<close>, empty URL,
  title \<^verbatim>\<open>Root\<close>, depth 0, status \<^verbatim>\<open>ok\<close> and an empty list of children.
\<close>

theorem buildSitemapStructure_empty:
  "buildSitemapStructure P fuel None
     = Some (SitemapNode (Str ''root'') [] ''Root'' 0 ''ok'' (Some []))
   \<and> buildSitemapStructure P fuel (Some [])
     = Some (SitemapNode (Str ''root'') [] ''Root'' 0 ''ok'' (Some []))"
  by (simp add: buildSitemapStructure_def emptyRoot_def)

subsection \<open>Normalising twice\<close>

text \<open>
  C6. \<^verbatim>\<open>normalize\<close> of the Playwright crawler is not idempotent. It removes one trailing
  slash from the whole serialised URL: a path ending in two slashes loses one at each pass, and
  the hash route \<^verbatim>\<open>#/\<close> is cut to \<^verbatim>\<open>#\<close>, which the next pass removes together with the
  slash of the path.
\<close>

theorem normalize_twice_differs:
  "normalize_url parseURL ''https://a.com/x//'' = Some ''https://a.com/x/''
   \<and> normalize_url parseURL ''https://a.com/x/'' = Some ''https://a.com/x''
   \<and> normalize_url parseURL ''https://a.com/#/'' = Some ''https://a.com/#''
   \<and> normalize_url parseURL ''https://a.com/#'' = Some ''https://a.com''"
  by (simp add: normalize_url_def normalizeUrl_def parseURL_eval url_eval)

subsection \<open>Host names with and without www\<close>

text \<open>
  C7. \<^verbatim>\<open>sameDomain\<close> of the Playwright crawler compares the host names as they are, so
  \<^verbatim>\<open>a.com\<close> and \<^verbatim>\<open>www.a.com\<close> are different domains for it; the test in the link loop of
  the Puppeteer crawler accepts the two host names in either order.
\<close>

theorem sameDomain_www_differs:
  "sameDomain parseURL ''https://a.com'' ''https://www.a.com'' = False
   \<and> sameDomain parseURL ''https://www.a.com'' ''https://a.com'' = False
   \<and> sameDomain_puppeteer ''www.a.com'' ''a.com''
   \<and> sameDomain_puppeteer ''a.com'' ''www.a.com''"
  by (simp add: sameDomain_def sameDomain_puppeteer_def parseURL_eval)

subsection \<open>The page cap\<close>

text \<open>
  C1. The loop of the Playwright crawler tests the cap once for a batch of up to six items.
  On the small site with \<^verbatim>\<open>maxPages = 2\<close> the second batch holds both links, and the job ends
  with three visited URLs, three pages and three rows. The visited set passes the cap by five
  URLs at most (\<open>crawlLoop_visited_bound\<close>).
\<close>

theorem crawlWebsite_exceeds_maxPages:
  "map_option (\<lambda>st. (length (visited st), length (pages st), length (rows st)))
     (crawlWebsite demoEnv ''a.com'' 3 2) = Some (3, 3, 3)"
  by code_simp

subsection \<open>A page that cannot be loaded\<close>

text \<open>
  C3. In the Playwright crawler a page that cannot be loaded does not stop the job and adds no
  link, and its row is written like any other: with the title \<^verbatim>\<open>Untitled\<close> and the status
  code 200. The Puppeteer crawler stores 403, 408 or 0 for such a page.
\<close>

theorem crawlWebsite_failed_page_status:
  "map_option (\<lambda>st. (filter (\<lambda>r. row_url r = ''https://a.com/x'') (rows st),
                       map row_status (rows st), length (pages st), queue st))
     (crawlWebsite demoEnv ''a.com'' 3 10)
     = Some ([\<lparr>row_url = ''https://a.com/x'', row_depth = 1, row_parentUrl = Some ''https://a.com'',
                 row_title = ''Untitled'', row_status = 200\<rparr>],
             [200, 200, 200], 3, [])
   \<and> errorStatus_puppeteer ''Page blocked by bot protection'' = 403
   \<and> errorStatus_puppeteer ''Navigation timeout of 90000 ms exceeded'' = 408
   \<and> errorStatus_puppeteer ''net::ERR_NAME_NOT_RESOLVED'' = 0"
  by code_simp

subsection \<open>The hash policy\<close>

text \<open>
  C2, as the code has it. For a URL that the parser accepts, \<^verbatim>\<open>normalize\<close> of the Playwright
  crawler returns the URL without query and without fragment when the fragment does not begin
  with \<^verbatim>\<open>#/\<close>, and it returns origin, path and fragment, without the query, when the
  fragment begins with \<^verbatim>\<open>#/\<close>, the raw string contains \<^verbatim>\<open>#/\<close> and the fragment does not
  end in a slash. \<^verbatim>\<open>normalizeUrl\<close> of the Puppeteer crawler removes the query and keeps every
  fragment.
\<close>

theorem normalize_hash_policy:
  "P raw = Some u \<Longrightarrow>
     (\<not> startsWith (hash u) ''#/'' \<longrightarrow>
        normalize_url P raw = Some (stripTrailingSlash (origin u @ pathname u)))
   \<and> (startsWith (hash u) ''#/'' \<and> includesStr raw ''#/'' \<and> last (hash u) \<noteq> CHR ''/'' \<longrightarrow>
        normalize_url P raw = Some (origin u @ pathname u @ hash u))
   \<and> normalizeUrl_puppeteer P raw
        = origin u @ pathname u @ (case fragment u of None \<Rightarrow> [] | Some f \<Rightarrow> CHR ''#'' # f)"
proof (intro conjI impI)
  assume p: "P raw = Some u"
  show "normalizeUrl_puppeteer P raw
        = origin u @ pathname u @ (case fragment u of None \<Rightarrow> [] | Some f \<Rightarrow> CHR ''#'' # f)"
    using p by (simp add: normalizeUrl_puppeteer_def href_no_query)
  {
    assume "\<not> startsWith (hash u) ''#/''"
    with p show "normalize_url P raw = Some (stripTrailingSlash (origin u @ pathname u))"
      by (rule normalize_drops_fragment)
  }
  {
    assume h: "startsWith (hash u) ''#/'' \<and> includesStr raw ''#/'' \<and> last (hash u) \<noteq> CHR ''/''"
    then have ne: "hash u \<noteq> []" by auto
    have "normalize_url P raw = Some (stripTrailingSlash ((origin u @ pathname u) @ hash u))"
      using normalize_keeps_route [of P raw u, OF p] h by simp
    also have "stripTrailingSlash ((origin u @ pathname u) @ hash u) = (origin u @ pathname u) @ hash u"
      using ne h by (intro stripTrailingSlash_append_keep) auto
    finally show "normalize_url P raw = Some (origin u @ pathname u @ hash u)" by simp
  }
qed

text \<open>
  The two URLs of the specification, a query, and the Puppeteer function on a URL with both.
\<close>

theorem normalize_hash_policy_witness:
  "normalize_url parseURL ''https://a.com/#/products'' = Some ''https://a.com/#/products''
   \<and> normalize_url parseURL ''https://a.com/page#section'' = Some ''https://a.com/page''
   \<and> normalize_url parseURL ''https://a.com/x?y=1'' = Some ''https://a.com/x''
   \<and> normalizeUrl_puppeteer parseURL ''https://a.com/page?y=1#section'' = ''https://a.com/page#section''"
proof -
  have p1: "parseURL ''https://a.com/#/products''
              = Some \<lparr>scheme = ''https'', hostname = ''a.com'', port = [], pathname = ''/'',
                      query = None, fragment = Some ''/products''\<rparr>"
    by (simp add: parseURL_eval)
  have p2: "parseURL ''https://a.com/page#section''
              = Some \<lparr>scheme = ''https'', hostname = ''a.com'', port = [], pathname = ''/page'',
                      query = None, fragment = Some ''section''\<rparr>"
    by (simp add: parseURL_eval)
  have p3: "parseURL ''https://a.com/x?y=1''
              = Some \<lparr>scheme = ''https'', hostname = ''a.com'', port = [], pathname = ''/x'',
                      query = Some ''y=1'', fragment = None\<rparr>"
    by (simp add: parseURL_eval)
  have p4: "parseURL ''https://a.com/page?y=1#section''
              = Some \<lparr>scheme = ''https'', hostname = ''a.com'', port = [], pathname = ''/page'',
                      query = Some ''y=1'', fragment = Some ''section''\<rparr>"
    by (simp add: parseURL_eval)
  show ?thesis
    using normalize_hash_policy [of parseURL "''https://a.com/#/products''", OF p1]
      normalize_hash_policy [of parseURL "''https://a.com/page#section''", OF p2]
      normalize_hash_policy [of parseURL "''https://a.com/x?y=1''", OF p3]
      normalize_hash_policy [of parseURL "''https://a.com/page?y=1#section''", OF p4]
    by (simp add: url_eval)
qed

text \<open>
  The hash route \<^verbatim>\<open>#/\<close> is not kept, a hash route that ends in a slash loses it, and the
  Puppeteer function keeps an in-page anchor.
\<close>

theorem normalize_hash_policy_counterexample:
  "normalize_url parseURL ''https://a.com/app#/'' = Some ''https://a.com/app#''
   \<and> normalize_url parseURL ''https://a.com/#/products/'' = Some ''https://a.com/#/products''
   \<and> normalizeUrl_puppeteer parseURL ''https://a.com/page#section'' = ''https://a.com/page#section''"
  by (simp add: normalize_url_def normalizeUrl_def normalizeUrl_puppeteer_def parseURL_eval url_eval)

subsection \<open>The trailing slash\<close>

text \<open>
  C8, as the code has it. When no hash route is kept, \<^verbatim>\<open>normalize\<close> of the Playwright crawler
  removes one trailing slash of the path, also when the path is exactly \<^verbatim>\<open>/\<close> (the case
  \<open>p = []\<close>), and leaves a path without trailing slash as it is. \<^verbatim>\<open>normalizeUrl\<close> of the
  Puppeteer crawler never touches the path.
\<close>

theorem normalize_trailing_slash:
  "P raw = Some u \<Longrightarrow> \<not> startsWith (hash u) ''#/'' \<Longrightarrow>
     (pathname u = p @ ''/'' \<longrightarrow> normalize_url P raw = Some (origin u @ p))
   \<and> (pathname u \<noteq> [] \<and> last (pathname u) \<noteq> CHR ''/'' \<longrightarrow>
        normalize_url P raw = Some (origin u @ pathname u))
   \<and> (fragment u = None \<longrightarrow> normalizeUrl_puppeteer P raw = origin u @ pathname u)"
proof (intro conjI impI)
  assume p: "P raw = Some u" and h: "\<not> startsWith (hash u) ''#/''"
  have n: "normalize_url P raw = Some (stripTrailingSlash (origin u @ pathname u))"
    using p h by (rule normalize_drops_fragment)
  {
    assume "pathname u = p @ ''/''"
    then have "stripTrailingSlash (origin u @ pathname u) = origin u @ p"
      using stripTrailingSlash_append_slash [of "origin u @ p"] by simp
    with n show "normalize_url P raw = Some (origin u @ p)" by simp
  }
  {
    assume "pathname u \<noteq> [] \<and> last (pathname u) \<noteq> CHR ''/''"
    then have "stripTrailingSlash (origin u @ pathname u) = origin u @ pathname u"
      by (intro stripTrailingSlash_append_keep) auto
    with n show "normalize_url P raw = Some (origin u @ pathname u)" by simp
  }
  {
    assume "fragment u = None"
    with p show "normalizeUrl_puppeteer P raw = origin u @ pathname u"
      by (simp add: normalizeUrl_puppeteer_def href_no_query)
  }
qed

theorem normalize_trailing_slash_witness:
  "normalize_url parseURL ''https://a.com/'' = Some ''https://a.com''
   \<and> normalize_url parseURL ''https://a.com/x/'' = Some ''https://a.com/x''
   \<and> normalize_url parseURL ''https://a.com/x'' = Some ''https://a.com/x''
   \<and> normalizeUrl_puppeteer parseURL ''https://a.com/x/'' = ''https://a.com/x/''"
proof -
  have p1: "parseURL ''https://a.com/''
              = Some \<lparr>scheme = ''https'', hostname = ''a.com'', port = [], pathname = ''/'',
                      query = None, fragment = None\<rparr>"
    by (simp add: parseURL_eval)
  have p2: "parseURL ''https://a.com/x/''
              = Some \<lparr>scheme = ''https'', hostname = ''a.com'', port = [], pathname = ''/x/'',
                      query = None, fragment = None\<rparr>"
    by (simp add: parseURL_eval)
  have p3: "parseURL ''https://a.com/x''
              = Some \<lparr>scheme = ''https'', hostname = ''a.com'', port = [], pathname = ''/x'',
                      query = None, fragment = None\<rparr>"
    by (simp add: parseURL_eval)
  show ?thesis
    using normalize_trailing_slash [of parseURL "''https://a.com/''" _ "[]", OF p1]
      normalize_trailing_slash [of parseURL "''https://a.com/x/''" _ "''/x''", OF p2]
      normalize_trailing_slash [of parseURL "''https://a.com/x''" _ "[]", OF p3]
    by (simp add: url_eval)
qed

text \<open>The root URL loses its slash, and the Puppeteer function keeps the slash of a path.\<close>

theorem normalize_trailing_slash_counterexample:
  "normalize_url parseURL ''https://a.com/'' = Some ''https://a.com''
   \<and> last ''https://a.com'' \<noteq> CHR ''/''
   \<and> normalizeUrl_puppeteer parseURL ''https://a.com/x/'' = ''https://a.com/x/''"
  by (simp add: normalize_url_def normalizeUrl_def normalizeUrl_puppeteer_def parseURL_eval url_eval)

subsection \<open>URLs that do not parse\<close>

text \<open>
  C9, as the code has it. For a raw URL that the parser rejects, \<^verbatim>\<open>normalizeUrl\<close> of the
  Playwright crawler returns \<^verbatim>\<open>null\<close>, whatever the flag. In the traversal loop such a URL
  is dropped silently before dispatch. A discovered link that the parser rejects is never put
  into the queue: the link loop gives the same items as on the links that parse, and the whole
  crawl (visited set, queue, pages and rows) is the same as on the site without the rejected
  links. A queue item that the parser rejects is skipped in the first phase of its batch, before
  it enters the visited set. The seed is not dropped silently: when the parser rejects the seed
  URL (the domain, with \<^verbatim>\<open>https://\<close> in front unless it starts with \<^verbatim>\<open>http\<close>),
  \<^verbatim>\<open>crawlWebsite\<close> throws before the loop starts and the job fails.
  \<^verbatim>\<open>normalizeUrl\<close> of the Puppeteer crawler does not fail on a string that the parser
  rejects. It returns the part of the string in front of the first \<^verbatim>\<open>#\<close>, cut at its first
  \<^verbatim>\<open>?\<close>, followed by \<^verbatim>\<open>#\<close> and the text between the first and the second \<^verbatim>\<open>#\<close> when
  that text is not empty; for a string without \<^verbatim>\<open>#\<close> it returns the string up to its first
  \<^verbatim>\<open>?\<close>.
\<close>

theorem malformed_url_dropped:
  "(parse e raw = None \<longrightarrow>
        normalizeUrl (parse e) raw b = None
      \<and> normalizeUrl_puppeteer (parse e) raw =
          (if CHR ''#'' \<in> set raw
           then takeWhile (\<lambda>c. c \<noteq> CHR ''?'') (takeWhile (\<lambda>c. c \<noteq> CHR ''#'') raw)
                @ (let f = takeWhile (\<lambda>c. c \<noteq> CHR ''#'') (tl (dropWhile (\<lambda>c. c \<noteq> CHR ''#'') raw))
                   in if f = [] then [] else CHR ''#'' # f)
           else takeWhile (\<lambda>c. c \<noteq> CHR ''?'') raw))
   \<and> enqueueLinks e baseUrl maxDepth vis u it links
       = enqueueLinks e baseUrl maxDepth vis u it (filter (\<lambda>l. parse e l \<noteq> None) links)
   \<and> admitBatch e maxDepth its vis
       = admitBatch e maxDepth (filter (\<lambda>it. parse e (item_url it) \<noteq> None) its) vis
   \<and> crawlWebsite e domain maxDepth maxPages
       = crawlWebsite (withoutRejectedLinks e) domain maxDepth maxPages
   \<and> (parse e (if startsWith domain ''http'' then domain else ''https://'' @ domain) = None \<longrightarrow>
        crawlWebsite e domain maxDepth maxPages = None)"
  by (simp add: normalizeUrl_def normalizeUrl_puppeteer_rejected enqueueLinks_filter
      admitBatch_filter crawlWebsite_withoutRejectedLinks del: not_None_eq)
     (simp add: crawlWebsite_def)

theorem malformed_url_dropped_witness:
  "parse demoBadLinkEnv ''not a url?x=1'' = None
   \<and> normalizeUrl (parse demoBadLinkEnv) ''not a url?x=1'' True = None
   \<and> normalizeUrl_puppeteer (parse demoBadLinkEnv) ''not a url?x=1'' = ''not a url''
   \<and> parse demoBadLinkEnv ''a?b#c#d'' = None
   \<and> normalizeUrl_puppeteer (parse demoBadLinkEnv) ''a?b#c#d'' = ''a#c''
   \<and> enqueueLinks demoBadLinkEnv ''https://a.com'' 3 [''https://a.com''] ''https://a.com''
         \<lparr>item_url = ''https://a.com'', item_depth = 0, item_parentUrl = None\<rparr>
         [''not a url?x=1'', ''https://a.com/y'']
       = [\<lparr>item_url = ''https://a.com/y'', item_depth = 1, item_parentUrl = Some ''https://a.com''\<rparr>]
   \<and> map_option (\<lambda>st. (visited st, map page_url (pages st), map row_url (rows st), queue st))
         (crawlWebsite demoBadLinkEnv ''a.com'' 3 10)
       = Some ([''https://a.com'', ''https://a.com/y''], [''https://a.com'', ''https://a.com/y''],
               [''https://a.com'', ''https://a.com/y''], [])
   \<and> parse demoBadLinkEnv ''https://not a url'' = None
   \<and> crawlWebsite demoBadLinkEnv ''not a url'' 3 10 = None"
proof -
  let ?it = "\<lparr>item_url = ''https://a.com'', item_depth = 0, item_parentUrl = None\<rparr>"
  have p1: "parse demoBadLinkEnv ''not a url?x=1'' = None"
    by (simp add: demoBadLinkEnv_def parseURL_eval)
  have p2: "parse demoBadLinkEnv ''a?b#c#d'' = None"
    by (simp add: demoBadLinkEnv_def parseURL_eval)
  have p3: "parse demoBadLinkEnv ''https://not a url'' = None"
    by (simp add: demoBadLinkEnv_def parseURL_eval)
  note t1 = malformed_url_dropped [where e = demoBadLinkEnv and raw = "''not a url?x=1''"
      and b = True and baseUrl = "''https://a.com''" and maxDepth = 3
      and vis = "[''https://a.com'']" and u = "''https://a.com''" and it = ?it
      and links = "[''not a url?x=1'', ''https://a.com/y'']" and domain = "''a.com''"
      and maxPages = 10]
  note t2 = malformed_url_dropped [where e = demoBadLinkEnv and raw = "''a?b#c#d''"
      and domain = "''not a url''" and maxDepth = 3 and maxPages = 10]
  have f: "filter (\<lambda>l. parse demoBadLinkEnv l \<noteq> None) [''not a url?x=1'', ''https://a.com/y'']
           = [''https://a.com/y'']"
    by (simp add: demoBadLinkEnv_def parseURL_eval)
  have q: "enqueueLinks demoBadLinkEnv ''https://a.com'' 3 [''https://a.com''] ''https://a.com'' ?it
             [''https://a.com/y'']
       = [\<lparr>item_url = ''https://a.com/y'', item_depth = 1, item_parentUrl = Some ''https://a.com''\<rparr>]"
    by code_simp
  have c: "map_option (\<lambda>st. (visited st, map page_url (pages st), map row_url (rows st), queue st))
         (crawlWebsite (withoutRejectedLinks demoBadLinkEnv) ''a.com'' 3 10)
       = Some ([''https://a.com'', ''https://a.com/y''], [''https://a.com'', ''https://a.com/y''],
               [''https://a.com'', ''https://a.com/y''], [])"
    by code_simp
  from t1 p1 have "normalizeUrl (parse demoBadLinkEnv) ''not a url?x=1'' True = None"
    and "normalizeUrl_puppeteer (parse demoBadLinkEnv) ''not a url?x=1'' = ''not a url''"
    by simp_all
  moreover from t2 p2 have "normalizeUrl_puppeteer (parse demoBadLinkEnv) ''a?b#c#d'' = ''a#c''"
    by simp
  moreover from t1 have "enqueueLinks demoBadLinkEnv ''https://a.com'' 3 [''https://a.com'']
         ''https://a.com'' ?it [''not a url?x=1'', ''https://a.com/y'']
       = [\<lparr>item_url = ''https://a.com/y'', item_depth = 1, item_parentUrl = Some ''https://a.com''\<rparr>]"
    unfolding f q by blast
  moreover from t1 have "crawlWebsite demoBadLinkEnv ''a.com'' 3 10
       = crawlWebsite (withoutRejectedLinks demoBadLinkEnv) ''a.com'' 3 10"
    by blast
  moreover have "crawlWebsite demoBadLinkEnv ''not a url'' 3 10 = None"
  proof -
    have s: "(if startsWith ''not a url'' ''http'' then ''not a url'' else ''https://'' @ ''not a url'')
             = ''https://not a url''"
      by simp
    note seed = t2 [THEN conjunct2, THEN conjunct2, THEN conjunct2, THEN conjunct2, unfolded s]
    from seed p3 show ?thesis by (rule mp)
  qed
  ultimately show ?thesis
    using p1 p2 p3 c by simp
qed

text \<open>
  The seed \<^verbatim>\<open>not a url\<close> does not parse, and the job fails on it instead of dropping it.
\<close>

theorem malformed_url_dropped_counterexample:
  "parseURL ''https://not a url'' = None
   \<and> crawlWebsite demoEnv ''not a url'' 3 10 = None"
  by (simp add: parseURL_eval crawlWebsite_def demoEnv_def)

subsection \<open>Every record once\<close>

text \<open>
  C4. For records with pairwise distinct URLs and acyclic parent references the builder returns
  a tree, for every nesting bound from some bound on. The nodes that stand for records hold
  every URL of the input exactly once: no URL occurs twice among them, and their URLs are those
  of the input. The top-level nodes are the records without parent and the orphans, in input
  order; none is dropped. The result is a finite tree, so it has no cycle.
\<close>

theorem buildSitemapStructure_every_record_once:
  assumes "distinct (map page_url recs)" and "acyclic (parentRefs recs)"
  shows "\<exists>fuel t. (\<forall>n \<ge> fuel. buildSitemapStructure P n (Some recs) = Some t)
           \<and> distinct (concat (map node_urls (forest recs t)))
           \<and> set (concat (map node_urls (forest recs t))) = set (map page_url recs)
           \<and> map node_url (forest recs t) = map page_url (topLevel recs)"
  using assms by (rule buildSitemapStructure_forest)

theorem buildSitemapStructure_every_record_once_witness:
  "distinct (map page_url demoRecords) \<and> acyclic (parentRefs demoRecords)
   \<and> (\<exists>fuel t. (\<forall>n \<ge> fuel. buildSitemapStructure parseURL n (Some demoRecords) = Some t)
          \<and> distinct (concat (map node_urls (forest demoRecords t)))
          \<and> set (concat (map node_urls (forest demoRecords t)))
              = {''https://a.com'', ''https://a.com/a'', ''https://a.com/a/b'', ''https://a.com/old/page''}
          \<and> map node_url (forest demoRecords t) = [''https://a.com'', ''https://a.com/old/page''])"
proof -
  have d: "distinct (map page_url demoRecords)"
    by (simp add: demoRecords_def)
  have s: "set (map page_url demoRecords)
           = {''https://a.com'', ''https://a.com/a'', ''https://a.com/a/b'', ''https://a.com/old/page''}"
    by (simp add: demoRecords_def)
  have t: "map page_url (topLevel demoRecords) = [''https://a.com'', ''https://a.com/old/page'']"
    by (simp add: topLevel_def attachedParent_def effParent_def demoRecords_def)
  show ?thesis
    using buildSitemapStructure_every_record_once [OF d acyclic_demoRecords, of parseURL]
      d acyclic_demoRecords
    unfolding s t by blast
qed

subsection \<open>The root of the result\<close>

text \<open>
  C5. The records have pairwise distinct URLs, as the page records of the specification do
  (one record for every canonical URL). Then the builder returns a tree for every nesting bound
  from the number of records on, the same tree for all of them. If more than one record is
  top-level, the tree is the synthesized root, with id \<^verbatim>\<open>root\<close>, title \<^verbatim>\<open>Root\<close>, depth 0,
  status \<^verbatim>\<open>ok\<close> and the URL of the home page or else of the first record, and its children
  are the nodes of the top-level pages, every one with its whole subtree, in input order.
  If exactly one record is top-level, the tree is the node of that page itself, with the
  identifier, the title, the depth and the subtree of the page: no root is put above it.
  What the node of a page is, \<open>nodeOf\<close> says; it leaves no choice (lemma \<open>nodeOf_unique\<close>).
\<close>

theorem buildSitemapStructure_root:
  assumes "distinct (map page_url recs)"
  shows "(1 < length (topLevel recs) \<longrightarrow>
            (\<exists>cs. (\<forall>n \<ge> length recs. buildSitemapStructure P n (Some recs)
                        = Some (SitemapNode (Str ''root'') (virtualRootUrl P (cleanPages P 0 recs))
                                  ''Root'' 0 ''ok'' (Some cs)))
                 \<and> list_all2 (\<lambda>c t. nodeOf t (cleanPages P 0 recs) c)
                      (attachedTo (cleanPages P 0 recs) None) cs
                 \<and> map node_url cs = map page_url (topLevel recs)))
       \<and> (length (topLevel recs) = 1 \<longrightarrow>
            (\<exists>t c. (\<forall>n \<ge> length recs. buildSitemapStructure P n (Some recs) = Some t)
                 \<and> attachedTo (cleanPages P 0 recs) None = [c]
                 \<and> nodeOf t (cleanPages P 0 recs) c
                 \<and> node_url t = page_url (hd (topLevel recs))))"
proof (intro conjI impI)
  let ?cps = "cleanPages P 0 recs"
  let ?M = "finalMap ?cps"
  let ?R = "map page_url (topLevel recs)"
  from top_nodes [OF assms, of P] obtain ts where
    built: "\<forall>n \<ge> length recs. map (buildNode n ?M) ?R = map Some ts"
    and nodes: "list_all2 (\<lambda>c t. nodeOf t ?cps c) (attachedTo ?cps None) ts"
    and urls: "map node_url ts = ?R"
    by blast
  {
    assume many: "1 < length (topLevel recs)"
    then have ne: "recs \<noteq> []" by (auto simp: topLevel_def)
    from many have R: "?R \<noteq> []" "length ?R \<noteq> 1" by auto
    have "\<forall>n \<ge> length recs. buildSitemapStructure P n (Some recs)
            = Some (SitemapNode (Str ''root'') (virtualRootUrl P ?cps) ''Root'' 0 ''ok'' (Some ts))"
      using built R
      by (simp add: buildSitemapStructure_nonempty [OF ne] Let_def those_map_Some virtualRootUrl_def)
    with nodes urls
    show "\<exists>cs. (\<forall>n \<ge> length recs. buildSitemapStructure P n (Some recs)
                        = Some (SitemapNode (Str ''root'') (virtualRootUrl P ?cps)
                                  ''Root'' 0 ''ok'' (Some cs)))
                 \<and> list_all2 (\<lambda>c t. nodeOf t ?cps c) (attachedTo ?cps None) cs
                 \<and> map node_url cs = ?R"
      by (intro exI [of _ ts]) simp
  }
  {
    assume one: "length (topLevel recs) = 1"
    then obtain p where p: "topLevel recs = [p]"
      by (cases "topLevel recs") auto
    then have ne: "recs \<noteq> []" by (auto simp: topLevel_def)
    from p urls obtain t where t: "ts = [t]" by (cases ts) auto
    with nodes obtain c where c: "attachedTo ?cps None = [c]" and n: "nodeOf t ?cps c"
      by (auto simp: list_all2_Cons2)
    have "\<forall>n \<ge> length recs. buildSitemapStructure P n (Some recs) = Some t"
      using built by (simp add: buildSitemapStructure_nonempty [OF ne] p t)
    moreover have "node_url t = page_url (hd (topLevel recs))"
      using urls by (simp add: p t)
    ultimately
    show "\<exists>t c. (\<forall>n \<ge> length recs. buildSitemapStructure P n (Some recs) = Some t)
                 \<and> attachedTo ?cps None = [c] \<and> nodeOf t ?cps c
                 \<and> node_url t = page_url (hd (topLevel recs))"
      using c n by (intro exI [of _ t] exI [of _ c]) simp
  }
qed

text \<open>
  Two records without parent, the chain of the specification's example, and the chain with an
  orphan: the whole tree in each case.
\<close>

theorem buildSitemapStructure_root_witness:
  "distinct (map page_url demoTwoRoots) \<and> 1 < length (topLevel demoTwoRoots)
   \<and> buildSitemapStructure parseURL 2 (Some demoTwoRoots)
       = Some (SitemapNode (Str ''root'') ''https://a.com'' ''Root'' 0 ''ok''
           (Some [SitemapNode (Num 1) ''https://a.com'' ''Home'' 0 ''ok'' None,
                  SitemapNode (Num 2) ''https://a.com/about'' ''About'' 0 ''ok'' None]))
   \<and> buildSitemapStructure parseURL 100 (Some demoTwoRoots)
       = buildSitemapStructure parseURL 2 (Some demoTwoRoots)
   \<and> list_all2 (\<lambda>c t. nodeOf t (cleanPages parseURL 0 demoTwoRoots) c)
         (attachedTo (cleanPages parseURL 0 demoTwoRoots) None)
         [SitemapNode (Num 1) ''https://a.com'' ''Home'' 0 ''ok'' None,
          SitemapNode (Num 2) ''https://a.com/about'' ''About'' 0 ''ok'' None]
   \<and> distinct (map page_url demoChain) \<and> length (topLevel demoChain) = 1
   \<and> buildSitemapStructure parseURL 3 (Some demoChain)
       = Some (SitemapNode (Num 1) ''https://a.com'' ''Home'' 0 ''ok''
           (Some [SitemapNode (Num 2) ''https://a.com/a'' ''A'' 1 ''ok''
              (Some [SitemapNode (Num 3) ''https://a.com/a/b'' ''B'' 2 ''ok'' None])]))
   \<and> buildSitemapStructure parseURL 100 (Some demoChain)
       = buildSitemapStructure parseURL 3 (Some demoChain)
   \<and> nodeOf (SitemapNode (Num 1) ''https://a.com'' ''Home'' 0 ''ok''
           (Some [SitemapNode (Num 2) ''https://a.com/a'' ''A'' 1 ''ok''
              (Some [SitemapNode (Num 3) ''https://a.com/a/b'' ''B'' 2 ''ok'' None])]))
         (cleanPages parseURL 0 demoChain) (hd (attachedTo (cleanPages parseURL 0 demoChain) None))
   \<and> distinct (map page_url demoRecords) \<and> 1 < length (topLevel demoRecords)
   \<and> buildSitemapStructure parseURL 4 (Some demoRecords)
       = Some (SitemapNode (Str ''root'') ''https://a.com'' ''Root'' 0 ''ok''
           (Some [SitemapNode (Num 1) ''https://a.com'' ''Home'' 0 ''ok''
                    (Some [SitemapNode (Num 2) ''https://a.com/a'' ''A'' 1 ''ok''
                       (Some [SitemapNode (Num 3) ''https://a.com/a/b'' ''B'' 2 ''ok'' None])]),
                  SitemapNode (Num 4) ''https://a.com/old/page'' ''Old'' 2 ''ok'' None]))
   \<and> buildSitemapStructure parseURL 100 (Some demoRecords)
       = buildSitemapStructure parseURL 4 (Some demoRecords)"
proof -
  have d2: "distinct (map page_url demoTwoRoots)" by (simp add: demoTwoRoots_def)
  have l2: "1 < length (topLevel demoTwoRoots)" by code_simp
  have n2: "length demoTwoRoots = 2" by (simp add: demoTwoRoots_def)
  have e2: "buildSitemapStructure parseURL 2 (Some demoTwoRoots)
         = Some (SitemapNode (Str ''root'') ''https://a.com'' ''Root'' 0 ''ok''
             (Some [SitemapNode (Num 1) ''https://a.com'' ''Home'' 0 ''ok'' None,
                    SitemapNode (Num 2) ''https://a.com/about'' ''About'' 0 ''ok'' None]))"
    by code_simp
  from buildSitemapStructure_root [OF d2, of parseURL] l2 obtain cs where
    b2: "\<forall>n \<ge> length demoTwoRoots. buildSitemapStructure parseURL n (Some demoTwoRoots)
        = Some (SitemapNode (Str ''root'') (virtualRootUrl parseURL (cleanPages parseURL 0 demoTwoRoots))
                  ''Root'' 0 ''ok'' (Some cs))"
    and k2: "list_all2 (\<lambda>c t. nodeOf t (cleanPages parseURL 0 demoTwoRoots) c)
               (attachedTo (cleanPages parseURL 0 demoTwoRoots) None) cs"
    by blast
  from b2 have a2: "buildSitemapStructure parseURL 100 (Some demoTwoRoots)
        = buildSitemapStructure parseURL 2 (Some demoTwoRoots)"
    unfolding n2 by simp
  from b2 e2 have "cs = [SitemapNode (Num 1) ''https://a.com'' ''Home'' 0 ''ok'' None,
                         SitemapNode (Num 2) ''https://a.com/about'' ''About'' 0 ''ok'' None]"
    unfolding n2 by simp
  with k2 have c2: "list_all2 (\<lambda>c t. nodeOf t (cleanPages parseURL 0 demoTwoRoots) c)
         (attachedTo (cleanPages parseURL 0 demoTwoRoots) None)
         [SitemapNode (Num 1) ''https://a.com'' ''Home'' 0 ''ok'' None,
          SitemapNode (Num 2) ''https://a.com/about'' ''About'' 0 ''ok'' None]"
    by simp
  have dc: "distinct (map page_url demoChain)" by (simp add: demoChain_def)
  have lc: "length (topLevel demoChain) = 1" by code_simp
  have nc: "length demoChain = 3" by (simp add: demoChain_def)
  have ec: "buildSitemapStructure parseURL 3 (Some demoChain)
         = Some (SitemapNode (Num 1) ''https://a.com'' ''Home'' 0 ''ok''
             (Some [SitemapNode (Num 2) ''https://a.com/a'' ''A'' 1 ''ok''
                (Some [SitemapNode (Num 3) ''https://a.com/a/b'' ''B'' 2 ''ok'' None])]))"
    by code_simp
  from buildSitemapStructure_root [OF dc, of parseURL] lc obtain t c where
    bc: "\<forall>n \<ge> length demoChain. buildSitemapStructure parseURL n (Some demoChain) = Some t"
    and hc: "attachedTo (cleanPages parseURL 0 demoChain) None = [c]"
    and kc: "nodeOf t (cleanPages parseURL 0 demoChain) c"
    by blast
  from bc have ac: "buildSitemapStructure parseURL 100 (Some demoChain)
        = buildSitemapStructure parseURL 3 (Some demoChain)"
    unfolding nc by simp
  from bc ec have "t = SitemapNode (Num 1) ''https://a.com'' ''Home'' 0 ''ok''
             (Some [SitemapNode (Num 2) ''https://a.com/a'' ''A'' 1 ''ok''
                (Some [SitemapNode (Num 3) ''https://a.com/a/b'' ''B'' 2 ''ok'' None])])"
    unfolding nc by simp
  with kc hc have cc: "nodeOf (SitemapNode (Num 1) ''https://a.com'' ''Home'' 0 ''ok''
           (Some [SitemapNode (Num 2) ''https://a.com/a'' ''A'' 1 ''ok''
              (Some [SitemapNode (Num 3) ''https://a.com/a/b'' ''B'' 2 ''ok'' None])]))
         (cleanPages parseURL 0 demoChain) (hd (attachedTo (cleanPages parseURL 0 demoChain) None))"
    by simp
  have dr: "distinct (map page_url demoRecords)" by (simp add: demoRecords_def)
  have lr: "1 < length (topLevel demoRecords)" by code_simp
  have nr: "length demoRecords = 4" by (simp add: demoRecords_def)
  have er: "buildSitemapStructure parseURL 4 (Some demoRecords)
         = Some (SitemapNode (Str ''root'') ''https://a.com'' ''Root'' 0 ''ok''
             (Some [SitemapNode (Num 1) ''https://a.com'' ''Home'' 0 ''ok''
                      (Some [SitemapNode (Num 2) ''https://a.com/a'' ''A'' 1 ''ok''
                         (Some [SitemapNode (Num 3) ''https://a.com/a/b'' ''B'' 2 ''ok'' None])]),
                    SitemapNode (Num 4) ''https://a.com/old/page'' ''Old'' 2 ''ok'' None]))"
    by code_simp
  from buildSitemapStructure_root [OF dr, of parseURL] lr obtain cs' where
    "\<forall>n \<ge> length demoRecords. buildSitemapStructure parseURL n (Some demoRecords)
        = Some (SitemapNode (Str ''root'') (virtualRootUrl parseURL (cleanPages parseURL 0 demoRecords))
                  ''Root'' 0 ''ok'' (Some cs'))"
    by blast
  then have ar: "buildSitemapStructure parseURL 100 (Some demoRecords)
        = buildSitemapStructure parseURL 4 (Some demoRecords)"
    unfolding nr by simp
  show ?thesis
    using d2 l2 e2 a2 c2 dc lc ec ac cc dr lr er ar by (intro conjI)
qed

end
